theory Spec2Isabelle
  imports Complex_Main "HOL-Library.Word" "HOL-Library.Sublist"
begin

section \<open>Strings and numbers of the host language\<close>

text \<open>
  A JavaScript string is a sequence of UTF-16 code units, so it is modelled as a list of
  16-bit words. The peso sign of the price texts is the single code unit \<open>0x20B1\<close>.
  \<open>ascii\<close> turns an ASCII literal into such a string.
\<close>

type_synonym jsstring = "16 word list"

definition ascii :: "string \<Rightarrow> jsstring" where
  "ascii s = map of_char s"

text \<open>
  The characters matched by the regular expression class \<open>\s\<close> and stripped by
  \<open>String.prototype.trim\<close>: the white space and line terminator code points of
  ECMAScript.
\<close>

definition isWhiteSpace :: "16 word \<Rightarrow> bool" where
  "isWhiteSpace c \<longleftrightarrow>
     c \<in> {0x09, 0x0A, 0x0B, 0x0C, 0x0D, 0x20, 0xA0, 0x1680,
          0x2028, 0x2029, 0x202F, 0x205F, 0x3000, 0xFEFF}
     \<or> (0x2000 \<le> c \<and> c \<le> 0x200A)"

text \<open>\<open>value.replace(/\s+/g, " ")\<close>: every maximal run of white space becomes one space.\<close>

function replaceWhitespaceRuns :: "jsstring \<Rightarrow> jsstring" where
  "replaceWhitespaceRuns [] = []"
| "replaceWhitespaceRuns (c # cs) =
     (if isWhiteSpace c then 0x20 # replaceWhitespaceRuns (dropWhile isWhiteSpace cs)
      else c # replaceWhitespaceRuns cs)"
  by pat_completeness auto
termination
  by (relation "measure length") (auto simp: less_Suc_eq_le length_dropWhile_le)

definition trim :: "jsstring \<Rightarrow> jsstring" where
  "trim s = rev (dropWhile isWhiteSpace (rev (dropWhile isWhiteSpace s)))"

text \<open>
  \<^verbatim>\<open>
  function sanitizeText(value) {
    if (!value) return "";
    return String(value).replace(/\s+/g, " ").trim();
  }
  \<close>
  The only falsy string is the empty one.
\<close>

definition sanitizeText :: "jsstring \<Rightarrow> jsstring" where
  "sanitizeText v = (if v = [] then [] else trim (replaceWhitespaceRuns v))"

text \<open>
  A JavaScript number is an IEEE 754 binary64 value. A finite one is represented by the
  rational it denotes exactly. \<open>binary64 n d\<close> is the number nearest to the fraction
  \<open>n / d\<close> (for \<open>0 \<le> n\<close> and \<open>0 < d\<close>), ties to even, with gradual underflow
  below \<open>2 ^ - 1022\<close> and overflow to infinity from \<open>2 ^ 1024 - 2 ^ 970\<close> on: the
  rounding of a decimal literal to its number value.
\<close>

datatype jsnumber = NaN | Infinity | Finite rat

function bit_length :: "int \<Rightarrow> int" where
  "bit_length n = (if n \<le> 0 then 0 else 1 + bit_length (n div 2))"
  by pat_completeness auto
termination
  by (relation "measure nat") auto

declare bit_length.simps [simp del]

definition roundHalfEven :: "int \<Rightarrow> int \<Rightarrow> int" where
  "roundHalfEven a b =
     (let q = a div b; r = a mod b
      in if 2 * r < b then q else if b < 2 * r then q + 1 else if even q then q else q + 1)"

definition binary64 :: "int \<Rightarrow> int \<Rightarrow> jsnumber" where
  "binary64 n d =
     (if n = 0 then Finite 0
      else
        let e = (if d \<le> n then bit_length (n div d) - 1
                 else - bit_length ((d - 1) div n));
            p = max e (- 1022) - 52;
            m = (if 0 \<le> p then roundHalfEven n (d * 2 ^ nat p)
                 else roundHalfEven (n * 2 ^ nat (- p)) d)
        in if 0 \<le> p \<and> 2 ^ 1024 \<le> m * 2 ^ nat p then Infinity
           else Finite (if 0 \<le> p then of_int (m * 2 ^ nat p) else of_int m / 2 ^ nat (- p)))"

definition isDigit :: "16 word \<Rightarrow> bool" where
  "isDigit c \<longleftrightarrow> 0x30 \<le> c \<and> c \<le> 0x39"

definition digitsValue :: "jsstring \<Rightarrow> int" where
  "digitsValue ds = foldl (\<lambda>acc c. 10 * acc + (uint c - 0x30)) 0 ds"

text \<open>
  \<open>parseFloat\<close> reads the longest prefix of its argument that is a decimal literal and
  returns \<open>NaN\<close> when there is none. The scraper only calls it on \<open>cleaned\<close>, which
  holds digits and full stops only, so of the literal grammar the sign, the exponent,
  \<open>Infinity\<close> and the leading white space cannot occur: the prefix is a run of digits,
  then possibly a full stop and a run of digits, with a digit on at least one side.
\<close>

definition parseFloat :: "jsstring \<Rightarrow> jsnumber" where
  "parseFloat s =
     (let intDigits = takeWhile isDigit s;
          rest = dropWhile isDigit s;
          fracDigits = (case rest of [] \<Rightarrow> []
                        | c # cs \<Rightarrow> if c = 0x2E then takeWhile isDigit cs else [])
      in if intDigits = [] \<and> fracDigits = [] then NaN
         else binary64 (digitsValue (intDigits @ fracDigits)) (10 ^ length fracDigits))"

text \<open>
  \<^verbatim>\<open>
  function parsePrice(text) {
    if (!text) return null;
    const cleaned = text.replace(/[^0-9.,]/g, "").replace(/,/g, "");
    const num = parseFloat(cleaned);
    return Number.isFinite(num) ? num : null;
  }
  \<close>
  \<open>null\<close> is \<open>None\<close>. The function is the same in both scripts.
\<close>

definition keptByPriceFilter :: "16 word \<Rightarrow> bool" where
  "keptByPriceFilter c \<longleftrightarrow> isDigit c \<or> c = 0x2E \<or> c = 0x2C"

definition cleanPriceText :: "jsstring \<Rightarrow> jsstring" where
  "cleanPriceText text = filter (\<lambda>c. c \<noteq> 0x2C) (filter keptByPriceFilter text)"

definition isFinite :: "jsnumber \<Rightarrow> bool" where
  "isFinite num = (case num of Finite _ \<Rightarrow> True | _ \<Rightarrow> False)"

definition parsePrice :: "jsstring \<Rightarrow> rat option" where
  "parsePrice text =
     (if text = [] then None
      else case parseFloat (cleanPriceText text) of Finite x \<Rightarrow> Some x | _ \<Rightarrow> None)"

section \<open>Product records and the output document\<close>

text \<open>
  \<open>raw_product\<close> is one element of what \<open>scrapeCategory\<close> returns: five strings, and
  \<open>url\<close>, which is the \<open>href\<close> attribute of the link and therefore \<open>null\<close>
  (\<open>None\<close>) when the link has no such attribute. \<open>product\<close> is the object built by
  \<open>normalizeProduct\<close>, with the three added fields; it is an extension of
  \<open>raw_product\<close>, so the selectors \<open>name\<close>, \<open>url\<close>, ... read both.
  The field \<open>image\<close> of the source is \<open>image_src\<close> here.
\<close>

record raw_product =
  name :: jsstring
  url :: "jsstring option"
  uom :: jsstring
  priceText :: jsstring
  weightedPriceText :: jsstring
  image_src :: jsstring

record product = raw_product +
  price :: "rat option"
  scrapedAt :: jsstring
  sourceUrl :: jsstring

text \<open>
  \<^verbatim>\<open>
  function normalizeProduct(p, sourceUrl, scrapeTimestamp) {
    return {
      name: sanitizeText(p.name),
      url: p.url,
      uom: sanitizeText(p.uom),
      price: parsePrice(p.priceText),
      priceText: sanitizeText(p.priceText),
      weightedPriceText: sanitizeText(p.weightedPriceText),
      image: p.image,
      scrapedAt: scrapeTimestamp || new Date().toISOString(),
      sourceUrl: sourceUrl,
    };
  }
  \<close>
  The reading of the clock is the last argument.
\<close>

definition normalizeProduct :: "raw_product \<Rightarrow> jsstring \<Rightarrow> jsstring \<Rightarrow> jsstring \<Rightarrow> product" where
  "normalizeProduct p srcUrl scrapeTimestamp clock =
     \<lparr> name = sanitizeText (name p),
       url = url p,
       uom = sanitizeText (uom p),
       priceText = sanitizeText (priceText p),
       weightedPriceText = sanitizeText (weightedPriceText p),
       image_src = image_src p,
       price = parsePrice (priceText p),
       scrapedAt = (if scrapeTimestamp = [] then clock else scrapeTimestamp),
       sourceUrl = srcUrl \<rparr>"

text \<open>The filter \<open>(p) => p.name && p.url\<close> of both writers.\<close>

definition hasNameAndUrl :: "raw_product \<Rightarrow> bool" where
  "hasNameAndUrl p \<longleftrightarrow> name p \<noteq> [] \<and> (case url p of None \<Rightarrow> False | Some u \<Rightarrow> u \<noteq> [])"

text \<open>
  A cell of the CSV file, which is also what a field of a stored element can hold:
  a text, a finite number, \<open>null\<close>, or any other value.
\<close>

datatype cell = Text jsstring | Number rat | Null | OtherValue

text \<open>
  An element of the \<open>products\<close> array of a parsed file. It is a record with the nine
  fields as the scraper writes them (\<open>Record\<close>), the JSON \<open>null\<close>, of which no
  property can be read (\<open>NullItem\<close>), or any other JSON value (\<open>OtherItem\<close>): a
  number, a string, an array, an object with other keys or with fields of other types.
  Of such a value the model keeps what the two scripts observe of it:
  \<^item> \<open>urlRead\<close>, what \<open>p.url\<close> evaluates to in \<open>existing.map((p) => p.url)\<close>:
    a string, \<open>null\<close> (\<open>Some None\<close>), or a value that is neither and therefore
    equal to no url of an extracted product (\<open>None\<close>);
  \<^item> \<open>converted\<close>, the record that the callback of \<open>products.map\<close> in
    \<open>convertJsonToCsv\<close> returns for it, or \<open>None\<close> when the callback throws (as
    \<open>parsePrice\<close> does on a \<open>priceText\<close> that is a number when \<open>price\<close> is
    missing: a number has no \<open>replace\<close>).
\<close>

datatype stored_item =
    Record product
  | NullItem
  | OtherItem (urlRead: "jsstring option option") (converted: "cell list option")

text \<open>
  The output document. \<open>lastSavedAt\<close> and \<open>completed\<close> are optional keys of the
  metadata object. What \<open>data.products\<close> evaluates to on a parsed file is \<open>None\<close> when
  the key is missing or its value is falsy, an array of elements, or some other truthy
  value, which has no \<open>map\<close> method (a number, \<open>true\<close>, a non-empty string, an
  object); of such a value the scripts only read whether its \<open>length\<close> is 0.
\<close>

record metadata =
  meta_sourceUrl :: jsstring
  meta_scrapedAt :: jsstring
  totalProducts :: nat
  lastSavedAt :: "jsstring option"
  completed :: "bool option"

datatype products_value = NotAnArray (lengthIsZero: bool) | Array "stored_item list"

record document =
  metadata :: "metadata option"
  products :: "products_value option"

text \<open>
  The state of the file at \<open>jsonPath\<close>: absent, holding a text on which reading the
  document throws (\<open>JSON.parse\<close> fails, or the text is the JSON \<open>null\<close>, of which no
  property can be read), or holding a JSON text, given by what it parses to.
  \<open>JSON.stringify\<close> followed by \<open>JSON.parse\<close> gives back every document that the
  scraper writes.
\<close>

datatype file_state = Absent | Unparseable jsstring | Json document

datatype error = TypeError

text \<open>
  \<^verbatim>\<open>
  function loadExistingProducts(jsonPath) {
    if (!fs.existsSync(jsonPath)) return [];
    try {
      const data = JSON.parse(fs.readFileSync(jsonPath, "utf8"));
      return data.products || [];
    } catch (err) {
      console.log(`Warning: Could not load existing JSON, starting fresh.`);
      return [];
    }
  }
  \<close>
\<close>

definition loadExistingProducts :: "file_state \<Rightarrow> products_value" where
  "loadExistingProducts f =
     (case f of
        Absent \<Rightarrow> Array []
      | Unparseable _ \<Rightarrow> Array []
      | Json data \<Rightarrow> (case products data of None \<Rightarrow> Array [] | Some v \<Rightarrow> v))"

text \<open>
  \<open>saveProductsIncremental\<close> (lines 306 to 344 of \<open>scrape-sm.js\<close>). Its arguments
  are the extracted products, the source url, the reading of the clock and the state of
  the file; it returns the new state of the file and \<open>allProducts.length\<close>. The
  argument \<open>lastSavedCount\<close> is never read. \<open>existing.map((p) => p.url)\<close> throws
  a \<open>TypeError\<close> when \<open>existing\<close> is not an array and when one of its elements is
  \<open>null\<close>, before anything is written. The elements that the file held are written
  back as they were read.
\<close>

fun itemUrl :: "stored_item \<Rightarrow> jsstring option option" where
  "itemUrl (Record p) = Some (url p)"
| "itemUrl NullItem = None"
| "itemUrl (OtherItem u c) = u"

definition saveProductsIncremental ::
  "raw_product list \<Rightarrow> jsstring \<Rightarrow> jsstring \<Rightarrow> file_state \<Rightarrow> error + file_state \<times> nat" where
  "saveProductsIncremental prods srcUrl scrapeTimestamp f =
     (let normalized = map (\<lambda>p. normalizeProduct p srcUrl scrapeTimestamp scrapeTimestamp)
                           (filter hasNameAndUrl prods)
      in case loadExistingProducts f of
           NotAnArray _ \<Rightarrow> Inl TypeError
         | Array existing \<Rightarrow>
             if NullItem \<in> set existing then Inl TypeError
             else
             let existingUrls = set (map itemUrl existing);
                 newProducts = filter (\<lambda>p. Some (url p) \<notin> existingUrls) normalized;
                 allProducts = existing @ map Record newProducts;
                 outputData =
                   \<lparr> metadata = Some \<lparr> meta_sourceUrl = srcUrl,
                                        meta_scrapedAt = scrapeTimestamp,
                                        totalProducts = length allProducts,
                                        lastSavedAt = Some scrapeTimestamp,
                                        completed = None \<rparr>,
                     products = Some (Array allProducts) \<rparr>
             in Inr (Json outputData, length allProducts))"

text \<open>
  \<open>writeFinalOutput\<close> (lines 346 to 368). It does not read the file: the state it is
  given is overwritten.
\<close>

definition writeFinalOutput ::
  "raw_product list \<Rightarrow> jsstring \<Rightarrow> jsstring \<Rightarrow> file_state \<Rightarrow> file_state \<times> nat" where
  "writeFinalOutput prods srcUrl scrapeTimestamp f =
     (let normalized = map (\<lambda>p. normalizeProduct p srcUrl scrapeTimestamp scrapeTimestamp)
                           (filter hasNameAndUrl prods);
          outputData =
            \<lparr> metadata = Some \<lparr> meta_sourceUrl = srcUrl,
                                 meta_scrapedAt = scrapeTimestamp,
                                 totalProducts = length normalized,
                                 lastSavedAt = None,
                                 completed = Some True \<rparr>,
              products = Some (Array (map Record normalized)) \<rparr>
      in (Json outputData, length normalized))"

text \<open>
  The elements that a file holds, the product records among them, and the metadata that
  the file carries.
\<close>

fun recordsOf :: "stored_item list \<Rightarrow> product list" where
  "recordsOf [] = []"
| "recordsOf (Record p # items) = p # recordsOf items"
| "recordsOf (NullItem # items) = recordsOf items"
| "recordsOf (OtherItem u c # items) = recordsOf items"

definition fileItems :: "file_state \<Rightarrow> stored_item list" where
  "fileItems f = (case loadExistingProducts f of NotAnArray _ \<Rightarrow> [] | Array items \<Rightarrow> items)"

definition fileProducts :: "file_state \<Rightarrow> product list" where
  "fileProducts f = recordsOf (fileItems f)"

definition fileMetadata :: "file_state \<Rightarrow> metadata option" where
  "fileMetadata f = (case f of Json data \<Rightarrow> metadata data | _ \<Rightarrow> None)"

text \<open>
  A sequence of save operations, each with its extracted products, source url and clock
  reading, applied to the file one after the other. A run that is interrupted and
  started again only makes the sequence longer. An exception ends it.
\<close>

fun saveSequence ::
  "(raw_product list \<times> jsstring \<times> jsstring) list \<Rightarrow> file_state \<Rightarrow> error + file_state" where
  "saveSequence [] f = Inr f"
| "saveSequence ((prods, srcUrl, scrapeTimestamp) # rest) f =
     (case saveProductsIncremental prods srcUrl scrapeTimestamp f of
        Inl e \<Rightarrow> Inl e
      | Inr (f', n) \<Rightarrow> saveSequence rest f')"

section \<open>Notions of the specification\<close>

text \<open>
  Deduplication by a key, as the specification words it for the url: of the records that
  share a key, the first is kept. \<open>urlDedupUnion\<close> is the url-deduplicated union of two
  lists of records.
\<close>

fun dedupFrom :: "'k set \<Rightarrow> ('a \<Rightarrow> 'k) \<Rightarrow> 'a list \<Rightarrow> 'a list" where
  "dedupFrom seen key [] = []"
| "dedupFrom seen key (x # xs) =
     (if key x \<in> seen then dedupFrom seen key xs
      else x # dedupFrom (insert (key x) seen) key xs)"

definition urlDedupUnion ::
  "'a raw_product_scheme list \<Rightarrow> 'a raw_product_scheme list \<Rightarrow> 'a raw_product_scheme list" where
  "urlDedupUnion xs ys = dedupFrom {} url (xs @ ys)"

text \<open>
  A whitespace-normalized text: every white space character in it is a single space
  between two other characters, so no run of white space is left and the ends are trimmed.
\<close>

fun singleSpaced :: "jsstring \<Rightarrow> bool" where
  "singleSpaced [] = True"
| "singleSpaced [c] = True"
| "singleSpaced (c # d # cs) = ((if isWhiteSpace c then c = 0x20 \<and> \<not> isWhiteSpace d else True)
                                \<and> singleSpaced (d # cs))"

definition whitespaceNormalized :: "jsstring \<Rightarrow> bool" where
  "whitespaceNormalized s =
     (if s = [] then True
      else \<not> isWhiteSpace (hd s) \<and> \<not> isWhiteSpace (last s) \<and> singleSpaced s)"

section \<open>The scroll and stabilization loop\<close>

text \<open>
  What the page shows during one iteration of the loop of \<open>loadAllProducts\<close>: whether
  the container \<open>.infinite-scroll-component\<close> is found, the height of the document body
  after each pulse of the window fallback, the number of product cards counted after the
  waits, the products that \<open>scrapeCategory\<close> extracts and the reading of the clock.
\<close>

record iteration_view =
  hasContainer :: bool
  bodyHeights :: "nat \<Rightarrow> nat"
  currentCount :: nat
  extracted :: "raw_product list"
  clock :: jsstring

text \<open>
  \<open>autoScroll\<close> (lines 46 to 104), as the number of scroll pulses it issues: one
  \<open>page.evaluate\<close> that scrolls per round of either loop. With a container the loop runs
  \<open>maxScrolls\<close> rounds; without one the window is scrolled until the height of the
  body stops changing, \<open>previousHeight\<close> starting at 0.
\<close>

function containerScroll :: "nat \<Rightarrow> nat \<Rightarrow> nat" where
  "containerScroll maxScrolls i =
     (if i < maxScrolls then containerScroll maxScrolls (i + 1) else i)"
  by pat_completeness auto
termination
  by (relation "measure (\<lambda>(maxScrolls, i). maxScrolls - i)") auto

declare containerScroll.simps [simp del]

function windowScroll :: "(nat \<Rightarrow> nat) \<Rightarrow> nat \<Rightarrow> nat \<Rightarrow> nat \<Rightarrow> nat" where
  "windowScroll heights maxScrolls i previousHeight =
     (if i < maxScrolls then
        (let currentHeight = heights i
         in if currentHeight = previousHeight then i + 1
            else windowScroll heights maxScrolls (i + 1) currentHeight)
      else i)"
  by pat_completeness auto
termination
  by (relation "measure (\<lambda>(heights, maxScrolls, i, previousHeight). maxScrolls - i)") auto

declare windowScroll.simps [simp del]

definition autoScroll :: "bool \<Rightarrow> (nat \<Rightarrow> nat) \<Rightarrow> nat \<Rightarrow> nat" where
  "autoScroll container heights maxScrolls =
     (if container then containerScroll maxScrolls 0 else windowScroll heights maxScrolls 0 0)"

text \<open>
  The loop of \<open>loadAllProducts\<close> (lines 154 to 220). The state holds the two variables
  of the source, \<open>previousCount\<close> and \<open>stableIterations\<close>, the file at \<open>jsonPath\<close>,
  and two records that the source does not keep: the number of rounds of the loop
  entered and, round by round, the number of scroll pulses issued. The loop is left by \<open>break\<close> (\<open>Stabilized\<close>), by the bound of
  500 on \<open>i\<close> (\<open>CapReached\<close>), or by the exception of a save (\<open>Thrown\<close>);
  exceptions of the browser and of the file system are outside the model. The
  remainder \<open>i % saveInterval\<close> is \<open>NaN\<close> for a \<open>saveInterval\<close> of 0, and so never
  equal to 0. The waits, the console output and the call of \<open>loadExistingProducts\<close>
  before the loop, whose result is only printed, are left out.
\<close>

record loop_state =
  previousCount :: int
  stableIterations :: nat
  jsonFile :: file_state
  iterationsRun :: nat
  scrollPulses :: "nat list"

datatype loop_exit = Stabilized | CapReached | Thrown error

definition maxStable :: nat where
  "maxStable = 6"

function loadAllProductsLoop ::
  "(nat \<Rightarrow> iteration_view) \<Rightarrow> bool \<Rightarrow> jsstring \<Rightarrow> nat \<Rightarrow> nat \<Rightarrow> loop_state
     \<Rightarrow> loop_exit \<times> loop_state" where
  "loadAllProductsLoop page hasJsonPath srcUrl saveInterval i s =
     (if i < 500 then
        (let view = page i;
             s1 = s\<lparr> iterationsRun := i + 1,
                     scrollPulses := scrollPulses s @ [autoScroll (hasContainer view) (bodyHeights view) 5] \<rparr>;
             count = int (currentCount view);
             saved =
               (if hasJsonPath \<and> ((saveInterval \<noteq> 0 \<and> i mod saveInterval = 0) \<or> previousCount s < count)
                then saveProductsIncremental (extracted view) srcUrl (clock view) (jsonFile s)
                else Inr (jsonFile s, 0))
         in case saved of
              Inl e \<Rightarrow> (Thrown e, s1)
            | Inr (f, n) \<Rightarrow>
                if count \<le> previousCount s then
                  (if maxStable \<le> stableIterations s + 1
                   then (Stabilized, s1\<lparr> jsonFile := f, stableIterations := stableIterations s + 1 \<rparr>)
                   else loadAllProductsLoop page hasJsonPath srcUrl saveInterval (i + 1)
                          (s1\<lparr> jsonFile := f, stableIterations := stableIterations s + 1,
                               previousCount := count \<rparr>))
                else loadAllProductsLoop page hasJsonPath srcUrl saveInterval (i + 1)
                       (s1\<lparr> jsonFile := f, stableIterations := 0, previousCount := count \<rparr>))
      else (CapReached, s))"
  by pat_completeness auto
termination
  by (relation "measure (\<lambda>(page, hasJsonPath, srcUrl, saveInterval, i, s). 500 - i)") auto

declare loadAllProductsLoop.simps [simp del]

definition loadAllProducts ::
  "(nat \<Rightarrow> iteration_view) \<Rightarrow> bool \<Rightarrow> jsstring \<Rightarrow> nat \<Rightarrow> file_state \<Rightarrow> loop_exit \<times> loop_state" where
  "loadAllProducts page hasJsonPath srcUrl saveInterval f =
     loadAllProductsLoop page hasJsonPath srcUrl saveInterval 0
       \<lparr> previousCount = - 1, stableIterations = 0, jsonFile = f,
         iterationsRun = 0, scrollPulses = [] \<rparr>"

text \<open>
  A run of the scraper, as \<open>main\<close> of \<open>scrape-sm.js\<close> sequences it: the loop with
  the arguments that \<open>main\<close> passes, then the final extraction and
  \<open>writeFinalOutput\<close>. An exception of the loop ends the process with status 1 before
  the final write. The result is the exit status and the file that the run leaves.
\<close>

definition scrapeRun ::
  "(nat \<Rightarrow> iteration_view) \<Rightarrow> jsstring \<Rightarrow> raw_product list \<Rightarrow> jsstring \<Rightarrow> file_state
     \<Rightarrow> nat \<times> file_state" where
  "scrapeRun page srcUrl finalProducts finalClock f =
     (case loadAllProducts page True srcUrl 5 f of
        (ex, s) \<Rightarrow>
          (case ex of
             Thrown e \<Rightarrow> (1, jsonFile s)
           | _ \<Rightarrow> (0, fst (writeFinalOutput finalProducts srcUrl finalClock (jsonFile s)))))"

text \<open>
  The wording of the specification: the count has not increased at a measurement when it
  is at most the count of the measurement before (the first measurement is compared with
  \<open>- 1\<close>, which no count is below), and it has not increased for 6 consecutive
  measurements at \<open>i\<close> when this holds at \<open>i\<close> and at the five measurements before.
\<close>

definition notIncreasedAt :: "(nat \<Rightarrow> nat) \<Rightarrow> nat \<Rightarrow> bool" where
  "notIncreasedAt counts j \<longleftrightarrow> 0 < j \<and> counts j \<le> counts (j - 1)"

definition stableForSix :: "(nat \<Rightarrow> nat) \<Rightarrow> nat \<Rightarrow> bool" where
  "stableForSix counts i \<longleftrightarrow> 5 \<le> i \<and> list_all (notIncreasedAt counts) [i - 5 ..< i + 1]"

text \<open>
  The scroll pulses of one round, as the amended wording has them: with the scroll
  container 5; without it the window is scrolled until the height of the body, read after
  each pulse, is what it was before the pulse (0 before the first), and at most 5 times.
\<close>

definition heightUnchangedAt :: "(nat \<Rightarrow> nat) \<Rightarrow> nat \<Rightarrow> bool" where
  "heightUnchangedAt heights k \<longleftrightarrow> heights k = (if k = 0 then 0 else heights (k - 1))"

definition roundPulses :: "iteration_view \<Rightarrow> nat" where
  "roundPulses view =
     (if hasContainer view then 5
      else case find (heightUnchangedAt (bodyHeights view)) [0 ..< 5] of
             None \<Rightarrow> 5
           | Some k \<Rightarrow> k + 1)"

section \<open>The CSV conversion\<close>

text \<open>
  \<open>convertJsonToCsv\<close> and \<open>main\<close> of \<open>convert-to-csv.js\<close>. A row is the list of
  the cells of a record in the order of the header. The process ends with status 1 in
  three ways: the two checks of \<open>convertJsonToCsv\<close>, each with its message, and the
  handler of \<open>main().catch\<close> for whatever is thrown (by \<open>JSON.parse\<close>, by reading a
  property of \<open>null\<close>, by \<open>products.map\<close> on a value that is not an array, by the
  callback of \<open>products.map\<close> on an element). A value that is not an array and has no
  \<open>length\<close> of 0 passes the check of the length and fails at \<open>products.map\<close>. The
  writer of the CSV file is created after \<open>products.map\<close> has returned, so nothing is
  written when it throws. The \<open>price\<close> of a \<open>Record\<close> is a number or \<open>null\<close>,
  never \<open>undefined\<close>, so \<open>parsePrice\<close> is not called on it.
\<close>

record csv_file =
  header :: "string list"
  records :: "cell list list"

datatype exit_cause = JsonFileNotFound | NoProductsFound | UncaughtError

definition csvHeader :: "string list" where
  "csvHeader = [''name'', ''url'', ''uom'', ''price'', ''priceText'', ''weightedPriceText'',
                ''image'', ''scrapedAt'', ''sourceUrl'']"

definition csvRecord :: "document \<Rightarrow> product \<Rightarrow> cell list" where
  "csvRecord jsonData p =
     [ Text (sanitizeText (name p)),
       Text (case url p of None \<Rightarrow> [] | Some u \<Rightarrow> u),
       Text (sanitizeText (uom p)),
       (case price p of None \<Rightarrow> Null | Some x \<Rightarrow> Number x),
       Text (sanitizeText (priceText p)),
       Text (sanitizeText (weightedPriceText p)),
       Text (image_src p),
       Text (scrapedAt p),
       Text (if sourceUrl p \<noteq> [] then sourceUrl p
             else case metadata jsonData of None \<Rightarrow> [] | Some md \<Rightarrow> meta_sourceUrl md) ]"

text \<open>The callback of \<open>products.map\<close> on one element; \<open>None\<close> when it throws.\<close>

fun convertItem :: "document \<Rightarrow> stored_item \<Rightarrow> cell list option" where
  "convertItem jsonData (Record p) = Some (csvRecord jsonData p)"
| "convertItem jsonData NullItem = None"
| "convertItem jsonData (OtherItem u c) = c"

definition convertJsonToCsv :: "file_state \<Rightarrow> exit_cause + csv_file" where
  "convertJsonToCsv f =
     (case f of
        Absent \<Rightarrow> Inl JsonFileNotFound
      | Unparseable _ \<Rightarrow> Inl UncaughtError
      | Json jsonData \<Rightarrow>
          (case products jsonData of
             None \<Rightarrow> Inl NoProductsFound
           | Some (NotAnArray zero) \<Rightarrow> if zero then Inl NoProductsFound else Inl UncaughtError
           | Some (Array prods) \<Rightarrow>
               if length prods = 0 then Inl NoProductsFound
               else (case those (map (convertItem jsonData) prods) of
                       None \<Rightarrow> Inl UncaughtError
                     | Some normalized \<Rightarrow> Inr \<lparr> header = csvHeader, records = normalized \<rparr>)))"

text \<open>The exit status of the process and the CSV file it leaves, if any.\<close>

definition convertMain :: "file_state \<Rightarrow> nat \<times> csv_file option" where
  "convertMain f =
     (case convertJsonToCsv f of
        Inl cause \<Rightarrow> (1, None)
      | Inr csv \<Rightarrow> (0, Some csv))"

text \<open>
  The wording of the specification for the conversion: the products list of the input
  has zero entries. The list is \<open>jsonData.products || []\<close>, and it has zero entries
  when its \<open>length\<close> is 0.
\<close>

definition productsListEmpty :: "file_state \<Rightarrow> bool" where
  "productsListEmpty f =
     (case f of
        Json jsonData \<Rightarrow>
          (case products jsonData of
             None \<Rightarrow> True
           | Some (NotAnArray zero) \<Rightarrow> zero
           | Some (Array prods) \<Rightarrow> prods = [])
      | _ \<Rightarrow> False)"

section \<open>Auxiliary definitions\<close>

text \<open>
  Names for the parts of \<open>saveProductsIncremental\<close>: the normalized records of a batch
  that have a name and a url (\<open>normalized\<close> in the source, also computed by
  \<open>writeFinalOutput\<close>), the merge of the elements of the file with the new records
  (\<open>allProducts\<close>), the document that a save writes, and the condition under which
  \<open>existing.map\<close> does not throw. \<open>mergeNew\<close> and \<open>savedDocument\<close> are the merge
  and the document for a file that holds records only.
\<close>

definition normalizeAll :: "raw_product list \<Rightarrow> jsstring \<Rightarrow> jsstring \<Rightarrow> product list" where
  "normalizeAll prods srcUrl scrapeTimestamp =
     map (\<lambda>p. normalizeProduct p srcUrl scrapeTimestamp scrapeTimestamp) (filter hasNameAndUrl prods)"

definition mergeItems :: "stored_item list \<Rightarrow> product list \<Rightarrow> stored_item list" where
  "mergeItems existing normalized =
     existing @ map Record (filter (\<lambda>p. Some (url p) \<notin> set (map itemUrl existing)) normalized)"

definition savedItems :: "jsstring \<Rightarrow> jsstring \<Rightarrow> stored_item list \<Rightarrow> file_state" where
  "savedItems srcUrl scrapeTimestamp allProducts =
     Json \<lparr> metadata = Some \<lparr> meta_sourceUrl = srcUrl, meta_scrapedAt = scrapeTimestamp,
                               totalProducts = length allProducts,
                               lastSavedAt = Some scrapeTimestamp, completed = None \<rparr>,
            products = Some (Array allProducts) \<rparr>"

definition productsReadable :: "file_state \<Rightarrow> bool" where
  "productsReadable f =
     (case loadExistingProducts f of
        NotAnArray _ \<Rightarrow> False
      | Array existing \<Rightarrow> NullItem \<notin> set existing)"

definition mergeNew :: "product list \<Rightarrow> product list \<Rightarrow> product list" where
  "mergeNew existing normalized =
     existing @ filter (\<lambda>p. url p \<notin> set (map url existing)) normalized"

definition savedDocument :: "jsstring \<Rightarrow> jsstring \<Rightarrow> product list \<Rightarrow> file_state" where
  "savedDocument srcUrl scrapeTimestamp allProducts =
     Json \<lparr> metadata = Some \<lparr> meta_sourceUrl = srcUrl, meta_scrapedAt = scrapeTimestamp,
                               totalProducts = length allProducts,
                               lastSavedAt = Some scrapeTimestamp, completed = None \<rparr>,
            products = Some (Array (map Record allProducts)) \<rparr>"

text \<open>
  Names for the parts of one round of the loop: the counts that the page shows, the state
  after the scrolling of round \<open>i\<close>, and the save of the round, which is skipped when
  its condition does not hold.
\<close>

definition measuredCounts :: "(nat \<Rightarrow> iteration_view) \<Rightarrow> nat \<Rightarrow> nat" where
  "measuredCounts page i = currentCount (page i)"

definition enterRound :: "(nat \<Rightarrow> iteration_view) \<Rightarrow> nat \<Rightarrow> loop_state \<Rightarrow> loop_state" where
  "enterRound page i s =
     s\<lparr> iterationsRun := i + 1,
        scrollPulses := scrollPulses s @ [autoScroll (hasContainer (page i)) (bodyHeights (page i)) 5] \<rparr>"

definition saveOfRound ::
  "(nat \<Rightarrow> iteration_view) \<Rightarrow> bool \<Rightarrow> jsstring \<Rightarrow> nat \<Rightarrow> nat \<Rightarrow> loop_state
     \<Rightarrow> error + file_state \<times> nat" where
  "saveOfRound page hasJsonPath srcUrl saveInterval i s =
     (if hasJsonPath \<and> ((saveInterval \<noteq> 0 \<and> i mod saveInterval = 0)
                        \<or> previousCount s < int (currentCount (page i)))
      then saveProductsIncremental (extracted (page i)) srcUrl (clock (page i)) (jsonFile s)
      else Inr (jsonFile s, 0))"

text \<open>
  The number of consecutive measurements just before \<open>i\<close> at which the count has not
  increased: what \<open>stableIterations\<close> holds when round \<open>i\<close> of the loop begins.
\<close>

fun runLength :: "(nat \<Rightarrow> nat) \<Rightarrow> nat \<Rightarrow> nat" where
  "runLength counts 0 = 0"
| "runLength counts (Suc i) = (if notIncreasedAt counts i then Suc (runLength counts i) else 0)"

section \<open>Example inputs\<close>

text \<open>
  An extracted product with a given name and link, priced at 125 pesos, and a page on
  which the count grows by one per round up to 3 and stays there, with a body that is
  1000 high throughout, with or without the scroll container. \<open>exampleRun\<close> is the
  loop on that page, started on an absent file with the arguments that \<open>main\<close> passes.
\<close>

definition exampleProduct :: "string \<Rightarrow> string \<Rightarrow> raw_product" where
  "exampleProduct n u =
     \<lparr> name = ascii n, url = Some (ascii u), uom = ascii ''1kg'',
       priceText = 0x20B1 # ascii ''125'', weightedPriceText = [], image_src = ascii ''/i.png'' \<rparr>"

definition examplePage :: "bool \<Rightarrow> nat \<Rightarrow> iteration_view" where
  "examplePage container i =
     \<lparr> hasContainer = container, bodyHeights = (\<lambda>k. 1000), currentCount = min i 3,
       extracted = [], clock = ascii ''t'' \<rparr>"

definition exampleRun :: "bool \<Rightarrow> loop_exit \<times> loop_state" where
  "exampleRun container = loadAllProducts (examplePage container) True (ascii ''s'') 5 Absent"

section \<open>White space normalization\<close>

lemma replaceWhitespaceRuns_hd:
  "xs \<noteq> [] \<Longrightarrow> \<not> isWhiteSpace (hd xs) \<Longrightarrow>
   replaceWhitespaceRuns xs \<noteq> [] \<and> hd (replaceWhitespaceRuns xs) = hd xs"
  by (cases xs) simp_all

lemma replaceWhitespaceRuns_Nil: "(replaceWhitespaceRuns xs = []) = (xs = [])"
  by (cases xs) simp_all

lemma singleSpaced_Cons:
  "singleSpaced (c # ys) =
     (ys = [] \<or> ((isWhiteSpace c \<longrightarrow> c = 0x20 \<and> \<not> isWhiteSpace (hd ys)) \<and> singleSpaced ys))"
  by (cases ys) auto

lemma singleSpaced_replaceWhitespaceRuns: "singleSpaced (replaceWhitespaceRuns xs)"
proof (induction xs rule: replaceWhitespaceRuns.induct)
  case 1
  then show ?case by simp
next
  case (2 c cs)
  show ?case
  proof (cases "isWhiteSpace c")
    case True
    let ?rest = "dropWhile isWhiteSpace cs"
    have "\<not> isWhiteSpace (hd (replaceWhitespaceRuns ?rest))" if "replaceWhitespaceRuns ?rest \<noteq> []"
    proof -
      from that have ne: "?rest \<noteq> []"
        by (simp add: replaceWhitespaceRuns_Nil)
      then have "\<not> isWhiteSpace (hd ?rest)"
        by (rule hd_dropWhile)
      with ne show ?thesis
        by (simp add: replaceWhitespaceRuns_hd)
    qed
    with True 2 show ?thesis
      by (auto simp: singleSpaced_Cons)
  next
    case False
    with 2 show ?thesis
      by (simp add: singleSpaced_Cons)
  qed
qed

lemma singleSpaced_tl: "singleSpaced (c # s) \<Longrightarrow> singleSpaced s"
  by (cases s) simp_all

lemma singleSpaced_dropWhile: "singleSpaced s \<Longrightarrow> singleSpaced (dropWhile P s)"
  by (induction s) (auto dest: singleSpaced_tl)

lemma singleSpaced_prefix: "singleSpaced (xs @ ys) \<Longrightarrow> singleSpaced xs"
  by (induction xs rule: singleSpaced.induct) auto

lemma trim_is_prefix:
  "dropWhile isWhiteSpace s = trim s @ rev (takeWhile isWhiteSpace (rev (dropWhile isWhiteSpace s)))"
proof -
  have "xs = rev (dropWhile P (rev xs)) @ rev (takeWhile P (rev xs))" for P and xs :: jsstring
    by (metis rev_append rev_rev_ident takeWhile_dropWhile_id)
  then show ?thesis
    unfolding trim_def .
qed

lemma singleSpaced_trim: "singleSpaced s \<Longrightarrow> singleSpaced (trim s)"
proof -
  assume "singleSpaced s"
  then have "singleSpaced (dropWhile isWhiteSpace s)"
    by (rule singleSpaced_dropWhile)
  then have "singleSpaced (trim s @ rev (takeWhile isWhiteSpace (rev (dropWhile isWhiteSpace s))))"
    using trim_is_prefix [of s] by simp
  then show ?thesis
    by (rule singleSpaced_prefix)
qed

lemma trim_ends:
  assumes "trim s \<noteq> []"
  shows "\<not> isWhiteSpace (hd (trim s))" and "\<not> isWhiteSpace (last (trim s))"
proof -
  let ?u = "dropWhile isWhiteSpace s"
  from assms have tail_part: "dropWhile isWhiteSpace (rev ?u) \<noteq> []"
    by (simp add: trim_def)
  then have "\<not> isWhiteSpace (hd (dropWhile isWhiteSpace (rev ?u)))"
    by (rule hd_dropWhile)
  with tail_part show "\<not> isWhiteSpace (last (trim s))"
    by (simp add: trim_def last_rev)
  have head_part: "?u \<noteq> []"
  proof
    assume "?u = []"
    with tail_part show False by simp
  qed
  then have "\<not> isWhiteSpace (hd ?u)"
    by (rule hd_dropWhile)
  moreover have "hd ?u = hd (trim s)"
    using assms trim_is_prefix [of s] by (metis hd_append2)
  ultimately show "\<not> isWhiteSpace (hd (trim s))"
    by simp
qed

lemma whitespaceNormalized_sanitizeText: "whitespaceNormalized (sanitizeText s)"
proof (cases "sanitizeText s = []")
  case True
  then show ?thesis by (simp add: whitespaceNormalized_def)
next
  case False
  then have eq: "sanitizeText s = trim (replaceWhitespaceRuns s)"
    by (auto simp: sanitizeText_def)
  with False have ne: "trim (replaceWhitespaceRuns s) \<noteq> []"
    by simp
  have "singleSpaced (trim (replaceWhitespaceRuns s))"
    by (intro singleSpaced_trim singleSpaced_replaceWhitespaceRuns)
  with trim_ends [OF ne] ne show ?thesis
    by (simp add: whitespaceNormalized_def eq)
qed

lemma sanitizeText_example:
  "sanitizeText (ascii ''  a   b'' @ [0x0A] @ ascii '' c '') = ascii ''a b c''"
  by code_simp

text \<open>
  Claim C9, as amended. \<open>normalizeProduct\<close> passes \<open>name\<close>, \<open>uom\<close>,
  \<open>priceText\<close> and \<open>weightedPriceText\<close> through \<open>sanitizeText\<close>, whose result is
  always whitespace-normalized (runs of white space collapsed to one space, the ends
  trimmed), as in \<open>sanitizeText("  a   b\n c ") = "a b c"\<close>; \<open>url\<close> and
  \<open>image\<close> are copied as they were extracted.
\<close>


theorem normalizeProduct_text_fields:
  "name (normalizeProduct p srcUrl ts c) = sanitizeText (name p)
   \<and> uom (normalizeProduct p srcUrl ts c) = sanitizeText (uom p)
   \<and> priceText (normalizeProduct p srcUrl ts c) = sanitizeText (priceText p)
   \<and> weightedPriceText (normalizeProduct p srcUrl ts c) = sanitizeText (weightedPriceText p)
   \<and> whitespaceNormalized (sanitizeText s)
   \<and> url (normalizeProduct p srcUrl ts c) = url p
   \<and> image_src (normalizeProduct p srcUrl ts c) = image_src p
   \<and> sanitizeText (ascii ''  a   b'' @ [0x0A] @ ascii '' c '') = ascii ''a b c''"
  using whitespaceNormalized_sanitizeText [of s] sanitizeText_example
  by (simp add: normalizeProduct_def)

theorem normalizeProduct_text_fields_witness:
  "name (normalizeProduct (exampleProduct '' A   b '' ''/a'') (ascii ''s'') (ascii ''t1'') (ascii ''t1''))
     = sanitizeText (name (exampleProduct '' A   b '' ''/a''))
   \<and> sanitizeText (name (exampleProduct '' A   b '' ''/a'')) = ascii ''A b''
   \<and> whitespaceNormalized (sanitizeText (ascii '' A   b ''))
   \<and> whitespaceNormalized (ascii ''A b'')
   \<and> url (normalizeProduct (exampleProduct '' A   b '' ''/a'') (ascii ''s'') (ascii ''t1'') (ascii ''t1''))
     = Some (ascii ''/a'')"
proof -
  have "sanitizeText (name (exampleProduct '' A   b '' ''/a'')) = ascii ''A b''"
    by code_simp
  moreover have "whitespaceNormalized (ascii ''A b'')"
    by code_simp
  moreover have "url (exampleProduct '' A   b '' ''/a'') = Some (ascii ''/a'')"
    by (simp add: exampleProduct_def)
  ultimately show ?thesis
    using normalizeProduct_text_fields
      [of "exampleProduct '' A   b '' ''/a''" "ascii ''s''" "ascii ''t1''" "ascii ''t1''" "ascii '' A   b ''"]
    by simp
qed

text \<open>
  The claim C9 as it is stated fails for \<open>url\<close> and \<open>image\<close>: a product whose link
  and image attributes hold white space at the ends or in runs is persisted with exactly
  those texts, which are not whitespace-normalized.
\<close>


theorem url_and_image_not_normalized:
  "map_sum id (map url \<circ> fileProducts)
     (saveSequence [([(exampleProduct ''A'' '' /a  b'')\<lparr> image_src := ascii ''/i  j.png '' \<rparr>],
                     ascii ''s'', ascii ''t1'')] Absent)
     = Inr [Some (ascii '' /a  b'')]
   \<and> map_sum id (map image_src \<circ> fileProducts)
     (saveSequence [([(exampleProduct ''A'' '' /a  b'')\<lparr> image_src := ascii ''/i  j.png '' \<rparr>],
                     ascii ''s'', ascii ''t1'')] Absent)
     = Inr [ascii ''/i  j.png '']
   \<and> \<not> whitespaceNormalized (ascii '' /a  b'')
   \<and> \<not> whitespaceNormalized (ascii ''/i  j.png '')"
  by code_simp

section \<open>Price parsing\<close>

lemma isDigit_comma: "\<not> isDigit 0x2C"
  by (simp add: isDigit_def)

lemma cleanPriceText_filter:
  "cleanPriceText t = filter (\<lambda>c. isDigit c \<or> c = 0x2E) t"
proof -
  have "(c \<noteq> 0x2C \<and> keptByPriceFilter c) = (isDigit c \<or> c = 0x2E)" for c
    using isDigit_comma by (auto simp: keptByPriceFilter_def)
  then show ?thesis
    by (simp add: cleanPriceText_def conj_commute)
qed

lemma parseFloat_Nil: "parseFloat [] = NaN"
  by (simp add: parseFloat_def)

lemma parsePrice_digits_only:
  "parsePrice t = parsePrice (filter (\<lambda>c. isDigit c \<or> c = 0x2E) t)"
proof (cases "filter (\<lambda>c. isDigit c \<or> c = 0x2E) t = []")
  case True
  then show ?thesis
    by (simp add: parsePrice_def cleanPriceText_filter parseFloat_Nil)
next
  case False
  then have "t \<noteq> []" by auto
  with False show ?thesis
    by (simp add: parsePrice_def cleanPriceText_filter)
qed

lemma parsePrice_null:
  "(parsePrice t \<noteq> None) = (t \<noteq> [] \<and> isFinite (parseFloat (cleanPriceText t)))"
  by (simp add: parsePrice_def isFinite_def split: jsnumber.splits)

lemma parsePrice_peso_125: "parsePrice (0x20B1 # ascii ''125'') = Some 125"
  by code_simp

lemma parsePrice_peso_1250_50: "parsePrice (0x20B1 # ascii ''1,250.50'') = Some 1250.5"
  by code_simp

lemma parsePrice_empty: "parsePrice [] = None"
  by (simp add: parsePrice_def)

lemma parsePrice_NA: "parsePrice (ascii ''N/A'') = None"
  by code_simp

text \<open>
  Claim C7. \<open>parsePrice\<close> maps "P125" (with the peso sign) to 125, "P1,250.50" to
  1250.5, the empty string to \<open>null\<close> and "N/A" to \<open>null\<close>. In general the cleaned
  text is the input without every character that is neither a digit nor a full stop
  (the commas go in the second replacement), the result only depends on those
  characters, and it is \<open>null\<close> exactly when the text is empty or the cleaned text
  does not parse to a finite number.
\<close>


theorem parsePrice_contract:
  "parsePrice (0x20B1 # ascii ''125'') = Some 125
   \<and> parsePrice (0x20B1 # ascii ''1,250.50'') = Some 1250.5
   \<and> parsePrice [] = None
   \<and> parsePrice (ascii ''N/A'') = None
   \<and> cleanPriceText t = filter (\<lambda>c. isDigit c \<or> c = 0x2E) t
   \<and> parsePrice t = parsePrice (filter (\<lambda>c. isDigit c \<or> c = 0x2E) t)
   \<and> (parsePrice t \<noteq> None) = (t \<noteq> [] \<and> isFinite (parseFloat (cleanPriceText t)))"
  using parsePrice_peso_125 parsePrice_peso_1250_50 parsePrice_empty parsePrice_NA
    cleanPriceText_filter [of t] parsePrice_digits_only [of t] parsePrice_null [of t]
  by (intro conjI)

section \<open>The incremental save\<close>

lemma loadExistingProducts_Absent: "loadExistingProducts Absent = Array []"
  by (simp add: loadExistingProducts_def)

lemma loadExistingProducts_Unparseable: "loadExistingProducts (Unparseable t) = Array []"
  by (simp add: loadExistingProducts_def)

lemma recordsOf_append [simp]: "recordsOf (xs @ ys) = recordsOf xs @ recordsOf ys"
  by (induction xs rule: recordsOf.induct) simp_all

lemma recordsOf_map_Record [simp]: "recordsOf (map Record ps) = ps"
  by (induction ps) simp_all

lemma in_recordsOf: "(p \<in> set (recordsOf items)) = (Record p \<in> set items)"
  by (induction items rule: recordsOf.induct) auto

lemma NullItem_not_Record [simp]: "NullItem \<notin> Record ` A"
  by auto

lemma itemUrl_Records: "set (map itemUrl (map Record ps)) = Some ` set (map url ps)"
  by (induction ps) auto

lemma mergeItems_Records: "mergeItems (map Record ex) new = map Record (mergeNew ex new)"
proof -
  have "(Some (url p) \<notin> set (map itemUrl (map Record ex))) = (url p \<notin> set (map url ex))" for p :: product
    unfolding itemUrl_Records by blast
  then show ?thesis
    by (simp add: mergeItems_def mergeNew_def)
qed

lemma savedDocument_savedItems: "savedDocument src ts ps = savedItems src ts (map Record ps)"
  by (simp add: savedDocument_def savedItems_def)

lemma loadExisting_savedItems [simp]: "loadExistingProducts (savedItems src ts items) = Array items"
  by (simp add: savedItems_def loadExistingProducts_def)

lemma fileItems_savedItems [simp]: "fileItems (savedItems src ts items) = items"
  by (simp add: fileItems_def)

lemma fileProducts_savedItems [simp]: "fileProducts (savedItems src ts items) = recordsOf items"
  by (simp add: fileProducts_def)

lemma productsReadable_savedItems [simp]:
  "productsReadable (savedItems src ts items) = (NullItem \<notin> set items)"
  by (simp add: productsReadable_def)

lemma fileProducts_savedDocument [simp]: "fileProducts (savedDocument src ts ps) = ps"
  by (simp add: savedDocument_savedItems)

lemma loadExisting_savedDocument [simp]:
  "loadExistingProducts (savedDocument src ts ps) = Array (map Record ps)"
  by (simp add: savedDocument_savedItems)

lemma save_on_items:
  "loadExistingProducts f = Array existing \<Longrightarrow> NullItem \<notin> set existing \<Longrightarrow>
   saveProductsIncremental ps src ts f =
     Inr (savedItems src ts (mergeItems existing (normalizeAll ps src ts)),
          length (mergeItems existing (normalizeAll ps src ts)))"
  by (simp add: saveProductsIncremental_def Let_def savedItems_def mergeItems_def normalizeAll_def)

lemma save_unreadable:
  "\<not> productsReadable f \<Longrightarrow> saveProductsIncremental ps src ts f = Inl TypeError"
proof (cases "loadExistingProducts f")
  case (NotAnArray zero)
  then show ?thesis
    by (simp add: saveProductsIncremental_def Let_def)
next
  case (Array existing)
  assume "\<not> productsReadable f"
  with Array have "NullItem \<in> set existing"
    by (simp add: productsReadable_def)
  with Array show ?thesis
    by (simp add: saveProductsIncremental_def Let_def)
qed

text \<open>A stored array that holds \<open>null\<close> makes \<open>existing.map\<close> throw.\<close>

lemma save_on_null_element:
  "saveProductsIncremental ps src ts
     (Json \<lparr> metadata = md, products = Some (Array (items @ NullItem # others)) \<rparr>) = Inl TypeError"
  by (rule save_unreadable) (simp add: productsReadable_def loadExistingProducts_def)

lemma save_Inr_iff:
  "saveProductsIncremental ps src ts f = Inr (f', n) \<longleftrightarrow>
     productsReadable f \<and>
     f' = savedItems src ts (mergeItems (fileItems f) (normalizeAll ps src ts)) \<and>
     n = length (mergeItems (fileItems f) (normalizeAll ps src ts))"
proof (cases "productsReadable f")
  case False
  then show ?thesis by (simp add: save_unreadable)
next
  case True
  then obtain existing where "loadExistingProducts f = Array existing" "NullItem \<notin> set existing"
    by (auto simp: productsReadable_def split: products_value.splits)
  with True show ?thesis
    by (auto simp: save_on_items fileItems_def)
qed

text \<open>The save on a file that holds records only, and on a file that is absent or corrupt.\<close>

lemma save_on_Array:
  "loadExistingProducts f = Array (map Record existing) \<Longrightarrow>
   saveProductsIncremental ps src ts f =
     Inr (savedDocument src ts (mergeNew existing (normalizeAll ps src ts)),
          length (mergeNew existing (normalizeAll ps src ts)))"
  using save_on_items [of f "map Record existing" ps src ts]
  by (simp add: mergeItems_Records savedDocument_savedItems)

lemma mergeNew_Nil [simp]: "mergeNew [] new = new"
  by (simp add: mergeNew_def)

lemma save_on_Absent:
  "saveProductsIncremental ps src ts Absent =
     Inr (savedDocument src ts (normalizeAll ps src ts), length (normalizeAll ps src ts))"
  using save_on_Array [of Absent "[]" ps src ts]
  by (simp add: loadExistingProducts_Absent)

lemma save_on_Unparseable:
  "saveProductsIncremental ps src ts (Unparseable t) =
     Inr (savedDocument src ts (normalizeAll ps src ts), length (normalizeAll ps src ts))"
  using save_on_Array [of "Unparseable t" "[]" ps src ts]
  by (simp add: loadExistingProducts_Unparseable)

lemma url_normalizeProduct [simp]: "url (normalizeProduct p src ts c) = url p"
  by (simp add: normalizeProduct_def)

lemma map_url_normalizeAll: "map url (normalizeAll ps src ts) = map url (filter hasNameAndUrl ps)"
  by (simp add: normalizeAll_def comp_def)

lemma normalizeAll_append:
  "normalizeAll (xs @ ys) src ts = normalizeAll xs src ts @ normalizeAll ys src ts"
  by (simp add: normalizeAll_def)

lemma writeFinalOutput_products:
  "fileProducts (fst (writeFinalOutput prods srcUrl ts f)) = normalizeAll prods srcUrl ts"
  by (simp add: writeFinalOutput_def Let_def fileProducts_def fileItems_def loadExistingProducts_def
      normalizeAll_def del: map_map)

subsection \<open>A missing or corrupt file\<close>

text \<open>
  Claim C10. On a missing file and on a file that cannot be read as JSON,
  \<open>loadExistingProducts\<close> returns the empty list, so the next save succeeds and writes
  a document that holds the newly extracted records only: what a corrupt file held is
  dropped without an error.
\<close>


theorem save_on_missing_or_corrupt_file:
  "loadExistingProducts Absent = Array []
   \<and> loadExistingProducts (Unparseable t) = Array []
   \<and> saveProductsIncremental prods srcUrl ts Absent
       = Inr (savedDocument srcUrl ts (normalizeAll prods srcUrl ts), length (normalizeAll prods srcUrl ts))
   \<and> saveProductsIncremental prods srcUrl ts (Unparseable t)
       = Inr (savedDocument srcUrl ts (normalizeAll prods srcUrl ts), length (normalizeAll prods srcUrl ts))
   \<and> fileProducts (savedDocument srcUrl ts (normalizeAll prods srcUrl ts))
       = map (\<lambda>p. normalizeProduct p srcUrl ts ts) (filter hasNameAndUrl prods)"
  by (simp add: loadExistingProducts_Absent loadExistingProducts_Unparseable save_on_Absent
      save_on_Unparseable normalizeAll_def)

subsection \<open>The flag of completion\<close>

text \<open>
  Claim C8. An intermediate save writes a metadata object without the key
  \<open>completed\<close>; the final write of a run writes it with \<open>completed: true\<close>.
\<close>


theorem completed_only_on_final_write:
  "(saveProductsIncremental prods srcUrl ts f = Inr (f', n)
      \<longrightarrow> map_option completed (fileMetadata f') = Some None)
   \<and> map_option completed (fileMetadata (fst (writeFinalOutput prods' srcUrl' ts' g))) = Some (Some True)"
  by (simp add: save_Inr_iff savedItems_def fileMetadata_def writeFinalOutput_def Let_def)

theorem completed_only_on_final_write_witness:
  "saveProductsIncremental [exampleProduct ''A'' ''/a''] (ascii ''s'') (ascii ''t1'') Absent
     = Inr (savedDocument (ascii ''s'') (ascii ''t1'') (normalizeAll [exampleProduct ''A'' ''/a''] (ascii ''s'') (ascii ''t1'')), 1)
   \<and> map_option completed (fileMetadata
        (savedDocument (ascii ''s'') (ascii ''t1'') (normalizeAll [exampleProduct ''A'' ''/a''] (ascii ''s'') (ascii ''t1''))))
      = Some None
   \<and> map_option completed (fileMetadata (fst (writeFinalOutput [exampleProduct ''A'' ''/a''] (ascii ''s'') (ascii ''t2'')
        (savedDocument (ascii ''s'') (ascii ''t1'') (normalizeAll [exampleProduct ''A'' ''/a''] (ascii ''s'') (ascii ''t1''))))))
      = Some (Some True)"
proof -
  have run: "saveProductsIncremental [exampleProduct ''A'' ''/a''] (ascii ''s'') (ascii ''t1'') Absent
     = Inr (savedDocument (ascii ''s'') (ascii ''t1'') (normalizeAll [exampleProduct ''A'' ''/a''] (ascii ''s'') (ascii ''t1'')), 1)"
    by (simp add: save_on_Absent normalizeAll_def hasNameAndUrl_def
        exampleProduct_def ascii_def)
  show ?thesis
    using run completed_only_on_final_write
      [of "[exampleProduct ''A'' ''/a'']" "ascii ''s''" "ascii ''t1''" Absent
          "savedDocument (ascii ''s'') (ascii ''t1'') (normalizeAll [exampleProduct ''A'' ''/a''] (ascii ''s'') (ascii ''t1''))"
          1 "[exampleProduct ''A'' ''/a'']" "ascii ''s''" "ascii ''t2''"
          "savedDocument (ascii ''s'') (ascii ''t1'') (normalizeAll [exampleProduct ''A'' ''/a''] (ascii ''s'') (ascii ''t1''))"]
    by blast
qed

subsection \<open>Idempotence\<close>

lemma mergeNew_idem:
  "mergeNew (mergeNew ex new) new' = mergeNew ex new"
  if "set (map url new') \<subseteq> set (map url new)"
proof -
  have "url p \<in> set (map url (mergeNew ex new))" if "p \<in> set new'" for p
  proof -
    from that \<open>set (map url new') \<subseteq> set (map url new)\<close> obtain q where q: "q \<in> set new" "url q = url p"
      by (metis (no_types, lifting) image_iff list.set_map subsetD)
    show ?thesis
    proof (cases "url q \<in> set (map url ex)")
      case True
      then show ?thesis using q by (auto simp: mergeNew_def)
    next
      case False
      with q have "q \<in> set (mergeNew ex new)" by (simp add: mergeNew_def)
      then show ?thesis using q by (metis image_eqI list.set_map)
    qed
  qed
  then have "filter (\<lambda>p. url p \<notin> set (map url (mergeNew ex new))) new' = []"
    by (simp add: filter_empty_conv)
  then show ?thesis by (simp add: mergeNew_def[of "mergeNew ex new"])
qed

lemma mergeItems_idem:
  "mergeItems (mergeItems ex new) new' = mergeItems ex new"
  if "set (map url new') \<subseteq> set (map url new)"
proof -
  have "Some (url p) \<in> set (map itemUrl (mergeItems ex new))" if "p \<in> set new'" for p
  proof -
    from that \<open>set (map url new') \<subseteq> set (map url new)\<close> obtain q where q: "q \<in> set new" "url q = url p"
      by (metis (no_types, lifting) image_iff list.set_map subsetD)
    show ?thesis
    proof (cases "Some (url q) \<in> set (map itemUrl ex)")
      case True
      then show ?thesis using q by (auto simp: mergeItems_def)
    next
      case False
      with q have "Record q \<in> set (mergeItems ex new)" by (simp add: mergeItems_def)
      then have "itemUrl (Record q) \<in> set (map itemUrl (mergeItems ex new))"
        by (metis image_eqI list.set_map)
      then show ?thesis using q by simp
    qed
  qed
  then have "filter (\<lambda>p. Some (url p) \<notin> set (map itemUrl (mergeItems ex new))) new' = []"
    by (simp add: filter_empty_conv)
  then show ?thesis by (simp add: mergeItems_def [of "mergeItems ex new"])
qed

text \<open>
  The second save of a batch writes back the elements that the first one left, all of
  them and nothing else.
\<close>

lemma save_twice:
  assumes "saveProductsIncremental prods srcUrl t1 f = Inr (f1, n1)"
  shows "saveProductsIncremental prods srcUrl' t2 f1 = Inr (savedItems srcUrl' t2 (fileItems f1), n1)"
proof -
  let ?all = "mergeItems (fileItems f) (normalizeAll prods srcUrl t1)"
  from assms have f1: "f1 = savedItems srcUrl t1 ?all" and n1: "n1 = length ?all"
    and readable: "productsReadable f"
    by (simp_all add: save_Inr_iff)
  from readable have "NullItem \<notin> set (fileItems f)"
    by (auto simp: productsReadable_def fileItems_def split: products_value.splits)
  then have no_null: "NullItem \<notin> set ?all"
    by (auto simp: mergeItems_def)
  have "set (map url (normalizeAll prods srcUrl' t2)) \<subseteq> set (map url (normalizeAll prods srcUrl t1))"
    by (simp add: map_url_normalizeAll)
  then have "mergeItems ?all (normalizeAll prods srcUrl' t2) = ?all"
    by (rule mergeItems_idem)
  with no_null show ?thesis
    by (simp add: f1 n1 save_on_items)
qed

text \<open>
  Claim C4. \<open>saveProductsIncremental\<close> is idempotent: after a save of a batch that
  succeeded, a second save of the same batch succeeds, returns the same count and leaves
  the product list of the file as it was, so it adds no record and changes no field of a
  persisted record. The source url and the clock reading of the second save may differ.
\<close>


theorem save_idempotent:
  assumes "saveProductsIncremental prods srcUrl t1 f = Inr (f1, n1)"
  shows "\<exists>f2. saveProductsIncremental prods srcUrl' t2 f1 = Inr (f2, n1)
          \<and> fileProducts f2 = fileProducts f1"
proof -
  have "saveProductsIncremental prods srcUrl' t2 f1 = Inr (savedItems srcUrl' t2 (fileItems f1), n1)"
    using assms by (rule save_twice)
  moreover have "fileProducts (savedItems srcUrl' t2 (fileItems f1)) = fileProducts f1"
    by (simp add: fileProducts_def)
  ultimately show ?thesis
    by blast
qed

text \<open>The same batch saved twice on an absent file.\<close>


theorem save_idempotent_witness:
  "saveProductsIncremental [exampleProduct ''A'' ''/a''] (ascii ''s'') (ascii ''t1'') Absent
     = Inr (savedDocument (ascii ''s'') (ascii ''t1'') (normalizeAll [exampleProduct ''A'' ''/a''] (ascii ''s'') (ascii ''t1'')), 1)
   \<and> (\<exists>f2. saveProductsIncremental [exampleProduct ''A'' ''/a''] (ascii ''s'') (ascii ''t2'')
             (savedDocument (ascii ''s'') (ascii ''t1'') (normalizeAll [exampleProduct ''A'' ''/a''] (ascii ''s'') (ascii ''t1'')))
           = Inr (f2, 1)
         \<and> fileProducts f2 = fileProducts
             (savedDocument (ascii ''s'') (ascii ''t1'') (normalizeAll [exampleProduct ''A'' ''/a''] (ascii ''s'') (ascii ''t1''))))"
proof -
  have run: "saveProductsIncremental [exampleProduct ''A'' ''/a''] (ascii ''s'') (ascii ''t1'') Absent
     = Inr (savedDocument (ascii ''s'') (ascii ''t1'') (normalizeAll [exampleProduct ''A'' ''/a''] (ascii ''s'') (ascii ''t1'')), 1)"
    by (simp add: save_on_Absent normalizeAll_def hasNameAndUrl_def
        exampleProduct_def ascii_def)
  show ?thesis
    using run save_idempotent [OF run, of "ascii ''s''" "ascii ''t2''"]
    by blast
qed

subsection \<open>Persisted records\<close>

lemma recordsOf_mergeItems:
  "recordsOf (mergeItems ex new)
   = recordsOf ex @ filter (\<lambda>p. Some (url p) \<notin> set (map itemUrl ex)) new"
  by (simp add: mergeItems_def)

text \<open>A save keeps every element of the file, of whatever kind, and the records among them.\<close>

lemma save_keeps_items:
  "saveProductsIncremental prods srcUrl ts f = Inr (f', n) \<Longrightarrow> prefix (fileItems f) (fileItems f')"
  by (simp add: save_Inr_iff mergeItems_def)

lemma save_keeps_persisted:
  "saveProductsIncremental prods srcUrl ts f = Inr (f', n) \<Longrightarrow> prefix (fileProducts f) (fileProducts f')"
  by (simp add: save_Inr_iff recordsOf_mergeItems fileProducts_def)

lemma url_of_record_is_read:
  "p \<in> set (recordsOf items) \<Longrightarrow> Some (url p) \<in> set (map itemUrl items)"
proof -
  assume "p \<in> set (recordsOf items)"
  then have "Record p \<in> set items"
    by (simp add: in_recordsOf)
  then have "itemUrl (Record p) \<in> set (map itemUrl items)"
    by (metis image_eqI list.set_map)
  then show ?thesis by simp
qed

lemma save_adds_new_urls_only:
  assumes "saveProductsIncremental prods srcUrl ts f = Inr (f', n)"
    and "q \<in> set (drop (length (fileProducts f)) (fileProducts f'))"
  shows "url q \<notin> url ` set (fileProducts f)"
proof
  assume "url q \<in> url ` set (fileProducts f)"
  then obtain p where p: "p \<in> set (recordsOf (fileItems f))" and same: "url q = url p"
    by (auto simp: fileProducts_def)
  from p have "Some (url p) \<in> set (map itemUrl (fileItems f))"
    by (rule url_of_record_is_read)
  moreover from assms have "Some (url q) \<notin> set (map itemUrl (fileItems f))"
    by (simp add: save_Inr_iff recordsOf_mergeItems fileProducts_def)
  ultimately show False
    using same by simp
qed

lemma saves_keep_items:
  "saveSequence calls f = Inr f' \<Longrightarrow> prefix (fileItems f) (fileItems f')"
proof (induction calls arbitrary: f)
  case Nil
  then show ?case by simp
next
  case (Cons call rest)
  obtain prods srcUrl ts where call: "call = (prods, srcUrl, ts)"
    by (cases call) auto
  from Cons.prems call obtain f1 n1
    where step: "saveProductsIncremental prods srcUrl ts f = Inr (f1, n1)"
      and rest: "saveSequence rest f1 = Inr f'"
    by (auto split: sum.splits)
  from step have "prefix (fileItems f) (fileItems f1)"
    by (rule save_keeps_items)
  moreover from rest have "prefix (fileItems f1) (fileItems f')"
    by (rule Cons.IH)
  ultimately show ?case
    by (rule prefix_order.trans)
qed

text \<open>
  Claim C2, as amended. Whatever sequence of \<open>saveProductsIncremental\<close> calls follows,
  the records that the file held stay in it, in their places and with all their fields:
  the old product list is a prefix of the new one, and the saves only append. The final
  write of a run is not covered: \<open>writeFinalOutput\<close> does not read the file.
\<close>


theorem saves_keep_persisted_records:
  "saveSequence calls f = Inr f' \<Longrightarrow> prefix (fileProducts f) (fileProducts f')"
proof (induction calls arbitrary: f)
  case Nil
  then show ?case by simp
next
  case (Cons call rest)
  obtain prods srcUrl ts where call: "call = (prods, srcUrl, ts)"
    by (cases call) auto
  from Cons.prems call obtain f1 n1
    where step: "saveProductsIncremental prods srcUrl ts f = Inr (f1, n1)"
      and rest: "saveSequence rest f1 = Inr f'"
    by (auto split: sum.splits)
  from step have "prefix (fileProducts f) (fileProducts f1)"
    by (rule save_keeps_persisted)
  moreover from rest have "prefix (fileProducts f1) (fileProducts f')"
    by (rule Cons.IH)
  ultimately show ?case
    by (rule prefix_order.trans)
qed

theorem saves_keep_persisted_records_witness:
  "saveSequence [([exampleProduct ''A2'' ''/a'', exampleProduct ''B'' ''/b''], ascii ''s'', ascii ''t2'')]
     (savedDocument (ascii ''s'') (ascii ''t1'') (normalizeAll [exampleProduct ''A'' ''/a''] (ascii ''s'') (ascii ''t1'')))
   = Inr (savedDocument (ascii ''s'') (ascii ''t2'')
           (normalizeAll [exampleProduct ''A'' ''/a''] (ascii ''s'') (ascii ''t1'')
            @ normalizeAll [exampleProduct ''B'' ''/b''] (ascii ''s'') (ascii ''t2'')))
   \<and> prefix (fileProducts (savedDocument (ascii ''s'') (ascii ''t1'')
               (normalizeAll [exampleProduct ''A'' ''/a''] (ascii ''s'') (ascii ''t1''))))
        (fileProducts (savedDocument (ascii ''s'') (ascii ''t2'')
           (normalizeAll [exampleProduct ''A'' ''/a''] (ascii ''s'') (ascii ''t1'')
            @ normalizeAll [exampleProduct ''B'' ''/b''] (ascii ''s'') (ascii ''t2''))))"
proof -
  have run: "saveSequence [([exampleProduct ''A2'' ''/a'', exampleProduct ''B'' ''/b''], ascii ''s'', ascii ''t2'')]
     (savedDocument (ascii ''s'') (ascii ''t1'') (normalizeAll [exampleProduct ''A'' ''/a''] (ascii ''s'') (ascii ''t1'')))
   = Inr (savedDocument (ascii ''s'') (ascii ''t2'')
           (normalizeAll [exampleProduct ''A'' ''/a''] (ascii ''s'') (ascii ''t1'')
            @ normalizeAll [exampleProduct ''B'' ''/b''] (ascii ''s'') (ascii ''t2'')))"
    by (simp add: save_on_Array [OF loadExisting_savedDocument] mergeNew_def normalizeAll_def
        hasNameAndUrl_def exampleProduct_def ascii_def)
  show ?thesis
    using run saves_keep_persisted_records [OF run]
    by blast
qed

text \<open>
  The claim C2 as it is stated fails at the final write. A record saved at \<open>t1\<close> is
  written again by \<open>writeFinalOutput\<close> at \<open>t2\<close> with another \<open>scrapedAt\<close>, and a
  record that the final extraction does not hold is gone from the file.
\<close>

theorem final_write_replaces_persisted_records:
  "saveProductsIncremental [exampleProduct ''A'' ''/a''] (ascii ''s'') (ascii ''t1'') Absent
     = Inr (savedDocument (ascii ''s'') (ascii ''t1'') (normalizeAll [exampleProduct ''A'' ''/a''] (ascii ''s'') (ascii ''t1'')), 1)
   \<and> fileProducts (savedDocument (ascii ''s'') (ascii ''t1'') (normalizeAll [exampleProduct ''A'' ''/a''] (ascii ''s'') (ascii ''t1'')))
     = [normalizeProduct (exampleProduct ''A'' ''/a'') (ascii ''s'') (ascii ''t1'') (ascii ''t1'')]
   \<and> fileProducts (fst (writeFinalOutput [exampleProduct ''A'' ''/a''] (ascii ''s'') (ascii ''t2'')
        (savedDocument (ascii ''s'') (ascii ''t1'') (normalizeAll [exampleProduct ''A'' ''/a''] (ascii ''s'') (ascii ''t1'')))))
     = [normalizeProduct (exampleProduct ''A'' ''/a'') (ascii ''s'') (ascii ''t2'') (ascii ''t2'')]
   \<and> scrapedAt (normalizeProduct (exampleProduct ''A'' ''/a'') (ascii ''s'') (ascii ''t1'') (ascii ''t1'')) = ascii ''t1''
   \<and> scrapedAt (normalizeProduct (exampleProduct ''A'' ''/a'') (ascii ''s'') (ascii ''t2'') (ascii ''t2'')) = ascii ''t2''
   \<and> ascii ''t1'' \<noteq> ascii ''t2''
   \<and> fileProducts (fst (writeFinalOutput [] (ascii ''s'') (ascii ''t2'')
        (savedDocument (ascii ''s'') (ascii ''t1'') (normalizeAll [exampleProduct ''A'' ''/a''] (ascii ''s'') (ascii ''t1'')))))
     = []
   \<and> \<not> prefix
        (fileProducts (savedDocument (ascii ''s'') (ascii ''t1'') (normalizeAll [exampleProduct ''A'' ''/a''] (ascii ''s'') (ascii ''t1''))))
        (fileProducts (fst (writeFinalOutput [] (ascii ''s'') (ascii ''t2'')
           (savedDocument (ascii ''s'') (ascii ''t1'') (normalizeAll [exampleProduct ''A'' ''/a''] (ascii ''s'') (ascii ''t1''))))))"
  by (simp add: save_on_Absent writeFinalOutput_products
      normalizeAll_def hasNameAndUrl_def exampleProduct_def ascii_def normalizeProduct_def)

subsection \<open>One record per url\<close>

text \<open>
  Claim C1 at a failing input. A single batch with two records of the same url, saved on
  an absent file, leaves two records with that url in the file: the new records are
  compared with the urls already in the file, not with each other.
\<close>


theorem one_batch_same_url_twice:
  "map_sum id (map url \<circ> fileProducts)
     (saveSequence [([exampleProduct ''A'' ''/p'', exampleProduct ''B'' ''/p''], ascii ''s'', ascii ''t1'')] Absent)
   = Inr [Some (ascii ''/p''), Some (ascii ''/p'')]"
  by code_simp

lemma distinct_mergeNew:
  assumes "distinct (map url ex)" and "distinct (map url new)"
  shows "distinct (map url (mergeNew ex new))"
proof -
  have "distinct (map url (filter (\<lambda>p. url p \<notin> set (map url ex)) new))"
    using assms(2) by (rule distinct_map_filter)
  moreover have "set (map url ex) \<inter> set (map url (filter (\<lambda>p. url p \<notin> set (map url ex)) new)) = {}"
  proof -
    have "u \<notin> set (map url (filter (\<lambda>p. url p \<notin> set (map url ex)) new))"
      if u: "u \<in> set (map url ex)" for u
    proof
      assume "u \<in> set (map url (filter (\<lambda>p. url p \<notin> set (map url ex)) new))"
      then obtain q where "q \<in> set (filter (\<lambda>p. url p \<notin> set (map url ex)) new)" and "u = url q"
        by auto
      then have "u \<notin> set (map url ex)" by simp
      with u show False by contradiction
    qed
    then show ?thesis
      by (simp only: disjoint_iff) blast
  qed
  ultimately show ?thesis
    using assms(1) by (simp add: mergeNew_def)
qed

lemma distinct_mergeItems:
  assumes "distinct (map url (recordsOf ex))" and "distinct (map url new)"
  shows "distinct (map url (recordsOf (mergeItems ex new)))"
proof -
  let ?added = "filter (\<lambda>p. Some (url p) \<notin> set (map itemUrl ex)) new"
  have "distinct (map url ?added)"
    using assms(2) by (rule distinct_map_filter)
  moreover have "set (map url (recordsOf ex)) \<inter> set (map url ?added) = {}"
  proof -
    have "u \<notin> set (map url ?added)" if u: "u \<in> set (map url (recordsOf ex))" for u
    proof
      assume "u \<in> set (map url ?added)"
      then obtain q where "q \<in> set ?added" and q: "u = url q"
        by auto
      then have fresh: "Some (url q) \<notin> set (map itemUrl ex)" by simp
      from u obtain r where stored: "r \<in> set (recordsOf ex)" and r: "u = url r"
        by auto
      from stored have "Some (url r) \<in> set (map itemUrl ex)"
        by (rule url_of_record_is_read)
      with fresh q r show False by simp
    qed
    then show ?thesis
      by (simp only: disjoint_iff) blast
  qed
  ultimately show ?thesis
    using assms(1) by (simp add: recordsOf_mergeItems)
qed

lemma save_keeps_urls_distinct:
  assumes "saveProductsIncremental prods srcUrl ts f = Inr (f', n)"
    and "distinct (map url (fileProducts f))"
    and "distinct (map url (filter hasNameAndUrl prods))"
  shows "distinct (map url (fileProducts f'))"
proof -
  from assms(3) have "distinct (map url (normalizeAll prods srcUrl ts))"
    by (simp add: map_url_normalizeAll)
  with assms(2) have "distinct (map url (recordsOf (mergeItems (fileItems f) (normalizeAll prods srcUrl ts))))"
    unfolding fileProducts_def by (rule distinct_mergeItems)
  with assms(1) show ?thesis
    by (simp add: save_Inr_iff)
qed

text \<open>
  With the urls of every batch distinct, no sequence of saves puts a url in the file
  twice.
\<close>


lemma saves_keep_urls_distinct:
  "saveSequence calls f = Inr f' \<Longrightarrow> distinct (map url (fileProducts f)) \<Longrightarrow>
   \<forall>call \<in> set calls. distinct (map url (filter hasNameAndUrl (fst call))) \<Longrightarrow>
   distinct (map url (fileProducts f'))"
proof (induction calls arbitrary: f)
  case Nil
  then show ?case by simp
next
  case (Cons call rest)
  obtain prods srcUrl ts where call: "call = (prods, srcUrl, ts)"
    by (cases call) auto
  from Cons.prems(1) call obtain f1 n1
    where step: "saveProductsIncremental prods srcUrl ts f = Inr (f1, n1)"
      and rest: "saveSequence rest f1 = Inr f'"
    by (auto split: sum.splits)
  from Cons.prems(3) call have "distinct (map url (filter hasNameAndUrl prods))"
    by simp
  with step Cons.prems(2) have "distinct (map url (fileProducts f1))"
    by (rule save_keeps_urls_distinct)
  moreover from Cons.prems(3) have
    "\<forall>call \<in> set rest. distinct (map url (filter hasNameAndUrl (fst call)))"
    by simp
  ultimately show ?case
    using rest by (intro Cons.IH)
qed

subsection \<open>Two saves and the union of their records\<close>

lemma dedupFrom_filter:
  "distinct (map key (filter (\<lambda>x. key x \<notin> seen) xs)) \<Longrightarrow>
   dedupFrom seen key xs = filter (\<lambda>x. key x \<notin> seen) xs"
proof (induction xs arbitrary: seen)
  case Nil
  then show ?case by simp
next
  case (Cons x xs)
  show ?case
  proof (cases "key x \<in> seen")
    case True
    with Cons show ?thesis by simp
  next
    case False
    with Cons.prems have fresh: "key x \<notin> key ` set (filter (\<lambda>y. key y \<notin> seen) xs)"
      and dist: "distinct (map key (filter (\<lambda>y. key y \<notin> seen) xs))"
      by simp_all
    have "key y \<noteq> key x" if "y \<in> set xs" "key y \<notin> seen" for y
    proof -
      from that have "y \<in> set (filter (\<lambda>y. key y \<notin> seen) xs)" by simp
      then have "key y \<in> key ` set (filter (\<lambda>y. key y \<notin> seen) xs)" by (rule imageI)
      with fresh show ?thesis by metis
    qed
    then have same: "filter (\<lambda>y. key y \<notin> insert (key x) seen) xs = filter (\<lambda>y. key y \<notin> seen) xs"
      by (intro filter_cong) auto
    with dist have "dedupFrom (insert (key x) seen) key xs = filter (\<lambda>y. key y \<notin> insert (key x) seen) xs"
      by (intro Cons.IH) simp
    with False same show ?thesis by simp
  qed
qed

lemma dedupFrom_append:
  "dedupFrom seen key (xs @ ys) = dedupFrom seen key xs @ dedupFrom (seen \<union> key ` set xs) key ys"
  by (induction xs arbitrary: seen) (auto simp: insert_absorb)

lemma saveSequence_two:
  "saveSequence [(S1, src1, t1), (B, src2, t2)] Absent =
     Inr (savedDocument src2 t2 (mergeNew (normalizeAll S1 src1 t1) (normalizeAll B src2 t2)))"
  by (simp add: save_on_Absent save_on_Array [OF loadExisting_savedDocument])

lemma mergeNew_is_union:
  assumes d1: "distinct (map url (filter hasNameAndUrl S1))"
    and d2: "distinct (map url (filter hasNameAndUrl S2))"
  shows "mergeNew (normalizeAll S1 src1 t1) (normalizeAll (S1 @ S2) src2 t2)
         = urlDedupUnion (normalizeAll S1 src1 t1) (normalizeAll (S1 @ S2) src2 t2)"
proof -
  let ?N1 = "normalizeAll S1 src1 t1"
  let ?fresh = "\<lambda>p::product. url p \<notin> url ` set ?N1"
  have urls1: "map url ?N1 = map url (filter hasNameAndUrl S1)"
    by (rule map_url_normalizeAll)
  have first: "dedupFrom {} url ?N1 = ?N1"
    using d1 by (simp add: dedupFrom_filter urls1)
  have again: "filter ?fresh (normalizeAll S1 src2 t2) = []"
  proof -
    have "set (map url (normalizeAll S1 src2 t2)) = set (map url ?N1)"
      by (simp add: map_url_normalizeAll)
    then have "url p \<in> url ` set ?N1" if "p \<in> set (normalizeAll S1 src2 t2)" for p
      using that by (metis image_eqI list.set_map)
    then show ?thesis
      by (simp add: filter_empty_conv)
  qed
  have "distinct (map url (normalizeAll S2 src2 t2))"
    using d2 by (simp add: map_url_normalizeAll)
  then have "distinct (map url (filter ?fresh (normalizeAll S2 src2 t2)))"
    by (rule distinct_map_filter)
  then have "distinct (map url (filter ?fresh (normalizeAll (S1 @ S2) src2 t2)))"
    by (simp add: normalizeAll_append again)
  then have second: "dedupFrom (url ` set ?N1) url (normalizeAll (S1 @ S2) src2 t2)
                     = filter ?fresh (normalizeAll (S1 @ S2) src2 t2)"
    by (rule dedupFrom_filter)
  show ?thesis
    by (simp add: urlDedupUnion_def dedupFrom_append first second mergeNew_def)
qed

text \<open>
  Claim C3, as amended. When no url occurs twice among the records of \<open>S1\<close> that have
  a name and a url, nor among those of \<open>S2\<close>, a save of \<open>S1\<close> on an absent file
  followed by a save of \<open>S1 @ S2\<close> succeeds and leaves a file whose product list is the
  url-deduplicated union of the normalized records with a name and a url of the two
  saves (of two records with one url the one saved first is kept), and whose
  \<open>totalProducts\<close> is the length of that list.
\<close>


theorem two_saves_url_dedup_union:
  assumes "distinct (map url (filter hasNameAndUrl S1))"
    and "distinct (map url (filter hasNameAndUrl S2))"
  shows "\<exists>f. saveSequence [(S1, src1, t1), (S1 @ S2, src2, t2)] Absent = Inr f
          \<and> fileProducts f = urlDedupUnion (normalizeAll S1 src1 t1) (normalizeAll (S1 @ S2) src2 t2)
          \<and> map_option totalProducts (fileMetadata f) = Some (length (fileProducts f))"
proof -
  let ?all = "mergeNew (normalizeAll S1 src1 t1) (normalizeAll (S1 @ S2) src2 t2)"
  let ?f = "savedDocument src2 t2 ?all"
  have written: "saveSequence [(S1, src1, t1), (S1 @ S2, src2, t2)] Absent = Inr ?f"
    by (rule saveSequence_two)
  have held: "fileProducts ?f = ?all"
    by simp
  have total: "map_option totalProducts (fileMetadata ?f) = Some (length ?all)"
    by (simp add: fileMetadata_def savedDocument_def)
  have "?all = urlDedupUnion (normalizeAll S1 src1 t1) (normalizeAll (S1 @ S2) src2 t2)"
    using assms by (rule mergeNew_is_union)
  with written held total show ?thesis
    by (intro exI [of _ ?f]) simp
qed

text \<open>
  The second batch repeats the url of the first under another name and adds a new one.
\<close>


theorem two_saves_url_dedup_union_witness:
  "distinct (map url (filter hasNameAndUrl [exampleProduct ''A'' ''/a'']))
   \<and> distinct (map url (filter hasNameAndUrl [exampleProduct ''A2'' ''/a'', exampleProduct ''B'' ''/b'']))
   \<and> (\<exists>f. saveSequence [([exampleProduct ''A'' ''/a''], ascii ''s'', ascii ''t1''),
                          ([exampleProduct ''A'' ''/a''] @ [exampleProduct ''A2'' ''/a'', exampleProduct ''B'' ''/b''],
                           ascii ''s'', ascii ''t2'')] Absent = Inr f
          \<and> fileProducts f = urlDedupUnion (normalizeAll [exampleProduct ''A'' ''/a''] (ascii ''s'') (ascii ''t1''))
               (normalizeAll ([exampleProduct ''A'' ''/a''] @ [exampleProduct ''A2'' ''/a'', exampleProduct ''B'' ''/b''])
                  (ascii ''s'') (ascii ''t2''))
          \<and> map_option totalProducts (fileMetadata f) = Some (length (fileProducts f)))"
proof -
  have d1: "distinct (map url (filter hasNameAndUrl [exampleProduct ''A'' ''/a'']))"
    by (simp add: hasNameAndUrl_def exampleProduct_def ascii_def)
  have d2: "distinct (map url (filter hasNameAndUrl [exampleProduct ''A2'' ''/a'', exampleProduct ''B'' ''/b'']))"
    by (simp add: hasNameAndUrl_def exampleProduct_def ascii_def)
  show ?thesis
    using d1 d2 two_saves_url_dedup_union [OF d1 d2, of "ascii ''s''" "ascii ''t1''" "ascii ''s''" "ascii ''t2''"]
    by blast
qed

text \<open>
  The claim C3 as it is stated fails on two inputs: a batch with two records of one url
  leaves both in the file, and a record without a name, which is in the union of the
  inputs, is never written.
\<close>


theorem two_saves_not_dedup_union_of_inputs:
  "map_sum id (map url \<circ> fileProducts)
     (saveSequence [([exampleProduct ''A'' ''/p'', exampleProduct ''B'' ''/p''], ascii ''s'', ascii ''t1''),
                    ([exampleProduct ''A'' ''/p'', exampleProduct ''B'' ''/p''] @ [], ascii ''s'', ascii ''t2'')] Absent)
     = Inr [Some (ascii ''/p''), Some (ascii ''/p'')]
   \<and> map url (urlDedupUnion [exampleProduct ''A'' ''/p'', exampleProduct ''B'' ''/p''] []) = [Some (ascii ''/p'')]
   \<and> map_sum id (map url \<circ> fileProducts)
        (saveSequence [([exampleProduct [] ''/q''], ascii ''s'', ascii ''t1''),
                       ([exampleProduct [] ''/q''] @ [], ascii ''s'', ascii ''t2'')] Absent)
      = Inr []
   \<and> map url (urlDedupUnion [exampleProduct [] ''/q''] []) = [Some (ascii ''/q'')]"
  by code_simp

section \<open>The scroll loop\<close>

lemma containerScroll_eq: "containerScroll maxScrolls i = max maxScrolls i"
proof (induction maxScrolls i rule: containerScroll.induct)
  case (1 maxScrolls i)
  then show ?case
    by (cases "i < maxScrolls") (simp_all add: containerScroll.simps [of maxScrolls i] max_def)
qed

lemma windowScroll_bounds:
  "i \<le> windowScroll heights maxScrolls i previousHeight
   \<and> windowScroll heights maxScrolls i previousHeight \<le> max maxScrolls i
   \<and> (i < maxScrolls \<longrightarrow> i < windowScroll heights maxScrolls i previousHeight)"
proof (induction heights maxScrolls i previousHeight rule: windowScroll.induct)
  case (1 heights maxScrolls i previousHeight)
  note unfold = windowScroll.simps [of heights maxScrolls i previousHeight]
  show ?case
  proof (cases "i < maxScrolls")
    case False
    then show ?thesis by (simp add: unfold)
  next
    case True
    show ?thesis
    proof (cases "heights i = previousHeight")
      case same: True
      with True show ?thesis by (simp add: unfold)
    next
      case False
      with True 1 [OF True refl False]
      have "Suc i \<le> windowScroll heights maxScrolls (Suc i) (heights i)"
        and "windowScroll heights maxScrolls (Suc i) (heights i) \<le> max maxScrolls (Suc i)"
        by simp_all
      moreover from True False
      have "windowScroll heights maxScrolls i previousHeight
            = windowScroll heights maxScrolls (Suc i) (heights i)"
        by (simp add: unfold)
      ultimately show ?thesis
        using True by (auto simp: max_def split: if_splits)
    qed
  qed
qed

lemma autoScroll_pulses:
  "1 \<le> autoScroll container heights 5 \<and> autoScroll container heights 5 \<le> 5
   \<and> (container \<longrightarrow> autoScroll container heights 5 = 5)"
  using windowScroll_bounds [of 0 heights 5 0]
  by (simp add: autoScroll_def containerScroll_eq)

text \<open>
  Without the container a round stops at the first pulse after which the height of the
  body is unchanged, and after 5 pulses at the latest.
\<close>

lemma windowScroll_find:
  assumes "i \<le> maxScrolls" and "previousHeight = (if i = 0 then 0 else heights (i - 1))"
  shows "windowScroll heights maxScrolls i previousHeight
         = (case find (heightUnchangedAt heights) [i ..< maxScrolls] of
              None \<Rightarrow> maxScrolls
            | Some k \<Rightarrow> k + 1)"
  using assms
proof (induction "maxScrolls - i" arbitrary: i previousHeight)
  case 0
  then have past: "\<not> i < maxScrolls" and at_end: "i = maxScrolls"
    by simp_all
  from past have "windowScroll heights maxScrolls i previousHeight = i"
    by (simp add: windowScroll.simps [of heights maxScrolls i previousHeight])
  moreover from past have "[i ..< maxScrolls] = []"
    by simp
  ultimately show ?case
    using at_end by simp
next
  case (Suc d)
  from Suc.hyps(2) have below: "i < maxScrolls" and dist: "d = maxScrolls - (i + 1)"
    by simp_all
  from below have upt: "[i ..< maxScrolls] = i # [i + 1 ..< maxScrolls]"
    by (simp add: upt_conv_Cons)
  from Suc.prems(2) have here: "heightUnchangedAt heights i = (heights i = previousHeight)"
    by (simp add: heightUnchangedAt_def)
  show ?case
  proof (cases "heights i = previousHeight")
    case True
    with below here show ?thesis
      by (simp add: windowScroll.simps [of heights maxScrolls i previousHeight] upt)
  next
    case False
    from below have "i + 1 \<le> maxScrolls" by simp
    moreover have "heights i = (if i + 1 = 0 then 0 else heights (i + 1 - 1))" by simp
    ultimately have "windowScroll heights maxScrolls (i + 1) (heights i)
         = (case find (heightUnchangedAt heights) [i + 1 ..< maxScrolls] of
              None \<Rightarrow> maxScrolls
            | Some k \<Rightarrow> k + 1)"
      by (rule Suc.hyps(1) [OF dist])
    with below False here show ?thesis
      by (simp add: windowScroll.simps [of heights maxScrolls i previousHeight] upt)
  qed
qed

lemma autoScroll_roundPulses:
  "autoScroll (hasContainer view) (bodyHeights view) 5 = roundPulses view"
  by (simp add: autoScroll_def roundPulses_def containerScroll_eq windowScroll_find)

lemma roundPulses_bounds: "1 \<le> roundPulses view \<and> roundPulses view \<le> 5"
  using autoScroll_pulses [of "hasContainer view" "bodyHeights view"]
  by (simp add: autoScroll_roundPulses)

lemma runLength_ge:
  "(n \<le> runLength counts i) = (n \<le> i \<and> (\<forall>j. i - n \<le> j \<and> j < i \<longrightarrow> notIncreasedAt counts j))"
proof (induction i arbitrary: n)
  case 0
  then show ?case by simp
next
  case (Suc i)
  show ?case
  proof (cases n)
    case 0
    then show ?thesis by auto
  next
    case (Suc m)
    have "(\<forall>j. Suc i - Suc m \<le> j \<and> j < Suc i \<longrightarrow> notIncreasedAt counts j)
          = (notIncreasedAt counts i \<and> (\<forall>j. i - m \<le> j \<and> j < i \<longrightarrow> notIncreasedAt counts j))"
      by (auto simp: less_Suc_eq)
    with Suc Suc.IH [of m] show ?thesis
      by auto
  qed
qed

lemma stableForSix_runLength: "stableForSix counts i = (6 \<le> runLength counts (Suc i))"
proof -
  have "list_all (notIncreasedAt counts) [i - 5 ..< i + 1]
        = (\<forall>j. Suc i - 6 \<le> j \<and> j < Suc i \<longrightarrow> notIncreasedAt counts j)"
    by (auto simp: list_all_iff less_Suc_eq)
  then show ?thesis
    unfolding stableForSix_def runLength_ge by auto
qed

lemma loop_at_cap:
  "\<not> i < 500 \<Longrightarrow> loadAllProductsLoop page hasJsonPath srcUrl saveInterval i s = (CapReached, s)"
  by (simp add: loadAllProductsLoop.simps [of page hasJsonPath srcUrl saveInterval i s])

lemma loop_round:
  "i < 500 \<Longrightarrow>
   loadAllProductsLoop page hasJsonPath srcUrl saveInterval i s =
     (case saveOfRound page hasJsonPath srcUrl saveInterval i s of
        Inl e \<Rightarrow> (Thrown e, enterRound page i s)
      | Inr (f, n) \<Rightarrow>
          if int (currentCount (page i)) \<le> previousCount s then
            (if maxStable \<le> stableIterations s + 1
             then (Stabilized, (enterRound page i s)\<lparr> jsonFile := f,
                                  stableIterations := stableIterations s + 1 \<rparr>)
             else loadAllProductsLoop page hasJsonPath srcUrl saveInterval (i + 1)
                    ((enterRound page i s)\<lparr> jsonFile := f, stableIterations := stableIterations s + 1,
                         previousCount := int (currentCount (page i)) \<rparr>))
          else loadAllProductsLoop page hasJsonPath srcUrl saveInterval (i + 1)
                 ((enterRound page i s)\<lparr> jsonFile := f, stableIterations := 0,
                      previousCount := int (currentCount (page i)) \<rparr>))"
  by (subst loadAllProductsLoop.simps [of page hasJsonPath srcUrl saveInterval i s])
    (simp only: Let_def enterRound_def saveOfRound_def if_True)

lemma loop_cases [consumes 1, case_names cap thrown stabilized stable grown]:
  assumes "loadAllProductsLoop page hasJsonPath srcUrl saveInterval i s = (ex, r)"
  obtains
    "\<not> i < 500" "ex = CapReached" "r = s"
  | e where "i < 500" "saveOfRound page hasJsonPath srcUrl saveInterval i s = Inl e"
      "ex = Thrown e" "r = enterRound page i s"
  | f n where "i < 500" "saveOfRound page hasJsonPath srcUrl saveInterval i s = Inr (f, n)"
      "int (currentCount (page i)) \<le> previousCount s" "maxStable \<le> stableIterations s + 1"
      "ex = Stabilized"
      "r = (enterRound page i s)\<lparr> jsonFile := f, stableIterations := stableIterations s + 1 \<rparr>"
  | f n where "i < 500" "saveOfRound page hasJsonPath srcUrl saveInterval i s = Inr (f, n)"
      "int (currentCount (page i)) \<le> previousCount s" "\<not> maxStable \<le> stableIterations s + 1"
      "loadAllProductsLoop page hasJsonPath srcUrl saveInterval (i + 1)
         ((enterRound page i s)\<lparr> jsonFile := f, stableIterations := stableIterations s + 1,
              previousCount := int (currentCount (page i)) \<rparr>) = (ex, r)"
  | f n where "i < 500" "saveOfRound page hasJsonPath srcUrl saveInterval i s = Inr (f, n)"
      "\<not> int (currentCount (page i)) \<le> previousCount s"
      "loadAllProductsLoop page hasJsonPath srcUrl saveInterval (i + 1)
         ((enterRound page i s)\<lparr> jsonFile := f, stableIterations := 0,
              previousCount := int (currentCount (page i)) \<rparr>) = (ex, r)"
proof (cases "i < 500")
  case False
  with assms that(1) show ?thesis
    by (simp add: loop_at_cap)
next
  case True
  show ?thesis
  proof (cases "saveOfRound page hasJsonPath srcUrl saveInterval i s")
    case (Inl e)
    with assms True that(2) show ?thesis
      by (simp add: loop_round)
  next
    case (Inr fn)
    obtain f n where fn: "fn = (f, n)"
      by (cases fn) auto
    show ?thesis
    proof (cases "int (currentCount (page i)) \<le> previousCount s")
      case le: True
      show ?thesis
      proof (cases "maxStable \<le> stableIterations s + 1")
        case True
        with assms \<open>i < 500\<close> Inr fn le that(3) [of f n] show ?thesis
          by (simp add: loop_round)
      next
        case False
        with assms \<open>i < 500\<close> Inr fn le that(4) [of f n] show ?thesis
          by (simp add: loop_round)
      qed
    next
      case False
      with assms True Inr fn that(5) [of f n] show ?thesis
        by (simp add: loop_round)
    qed
  qed
qed

lemma enterRound_fields [simp]:
  "iterationsRun (enterRound page i s) = i + 1"
  "previousCount (enterRound page i s) = previousCount s"
  "stableIterations (enterRound page i s) = stableIterations s"
  "jsonFile (enterRound page i s) = jsonFile s"
  "scrollPulses (enterRound page i s)
     = scrollPulses s @ [autoScroll (hasContainer (page i)) (bodyHeights (page i)) 5]"
  by (simp_all add: enterRound_def)

lemma compared_with_previous:
  "previousCount s = (if i = 0 then - 1 else int (measuredCounts page (i - 1))) \<Longrightarrow>
   (int (currentCount (page i)) \<le> previousCount s) = notIncreasedAt (measuredCounts page) i"
  by (cases "i = 0") (simp_all add: notIncreasedAt_def measuredCounts_def)

lemma loop_stops:
  assumes "loadAllProductsLoop page hasJsonPath srcUrl saveInterval i s = (ex, r)"
    and "i \<le> 500"
    and "iterationsRun s = i"
    and "previousCount s = (if i = 0 then - 1 else int (measuredCounts page (i - 1)))"
    and "stableIterations s = runLength (measuredCounts page) i"
    and "\<forall>k\<le>i. runLength (measuredCounts page) k < 6"
  shows "iterationsRun r \<le> 500
    \<and> (ex = Stabilized \<longrightarrow>
         0 < iterationsRun r \<and> runLength (measuredCounts page) (iterationsRun r) = 6
         \<and> (\<forall>k<iterationsRun r. runLength (measuredCounts page) k < 6))
    \<and> (ex = CapReached \<longrightarrow>
         iterationsRun r = 500 \<and> (\<forall>k\<le>500. runLength (measuredCounts page) k < 6))"
  using assms
proof (induction "500 - i" arbitrary: i s)
  case 0
  then have "\<not> i < 500" and "i = 500"
    by simp_all
  with 0 show ?case
    by (simp add: loop_at_cap)
next
  case (Suc d)
  let ?c = "measuredCounts page"
  note cmp = compared_with_previous [OF Suc.prems(4)]
  from Suc.hyps(2) have below: "i < 500" and dist: "d = 500 - (i + 1)"
    by simp_all
  from Suc.prems(1) show ?case
  proof (cases rule: loop_cases)
    case cap
    with below show ?thesis by simp
  next
    case (thrown e)
    with below show ?thesis by simp
  next
    case (stabilized f n)
    from stabilized(3) cmp have "runLength ?c (Suc i) = Suc (runLength ?c i)"
      by simp
    moreover from Suc.prems(6) have "runLength ?c i < 6"
      by simp
    moreover from stabilized(4) Suc.prems(5) have "6 \<le> runLength ?c i + 1"
      by (simp add: maxStable_def)
    ultimately have "runLength ?c (Suc i) = 6"
      by simp
    moreover from Suc.prems(6) have "\<forall>k<Suc i. runLength ?c k < 6"
      by (simp add: less_Suc_eq_le)
    ultimately show ?thesis
      using stabilized below by simp
  next
    case (stable f n)
    let ?s = "(enterRound page i s)\<lparr> jsonFile := f, stableIterations := stableIterations s + 1,
                 previousCount := int (currentCount (page i)) \<rparr>"
    from stable(3) cmp have len: "runLength ?c (Suc i) = Suc (runLength ?c i)"
      by simp
    from stable(4) Suc.prems(5) have "runLength ?c i + 1 < 6"
      by (simp add: maxStable_def)
    with len Suc.prems(6) have all: "\<forall>k\<le>i + 1. runLength ?c k < 6"
      by (simp add: le_Suc_eq)
    have "previousCount ?s = (if i + 1 = 0 then - 1 else int (?c (i + 1 - 1)))"
      by (simp add: measuredCounts_def)
    moreover have "stableIterations ?s = runLength ?c (i + 1)"
      using len Suc.prems(5) by simp
    moreover have "iterationsRun ?s = i + 1"
      by simp
    moreover from below have "i + 1 \<le> 500"
      by simp
    ultimately show ?thesis
      using Suc.hyps(1) [OF dist stable(5)] all by blast
  next
    case (grown f n)
    let ?s = "(enterRound page i s)\<lparr> jsonFile := f, stableIterations := 0,
                 previousCount := int (currentCount (page i)) \<rparr>"
    from grown(3) cmp have len: "runLength ?c (Suc i) = 0"
      by simp
    with Suc.prems(6) have all: "\<forall>k\<le>i + 1. runLength ?c k < 6"
      by (simp add: le_Suc_eq)
    have "previousCount ?s = (if i + 1 = 0 then - 1 else int (?c (i + 1 - 1)))"
      by (simp add: measuredCounts_def)
    moreover have "stableIterations ?s = runLength ?c (i + 1)"
      using len by simp
    moreover have "iterationsRun ?s = i + 1"
      by simp
    moreover from below have "i + 1 \<le> 500"
      by simp
    ultimately show ?thesis
      using Suc.hyps(1) [OF dist grown(4)] all by blast
  qed
qed

lemma loop_pulses_per_round:
  assumes "loadAllProductsLoop page hasJsonPath srcUrl saveInterval i s = (ex, r)"
    and "iterationsRun s = i"
    and "scrollPulses s = map (\<lambda>j. roundPulses (page j)) [0 ..< i]"
  shows "scrollPulses r = map (\<lambda>j. roundPulses (page j)) [0 ..< iterationsRun r]"
  using assms
proof (induction "500 - i" arbitrary: i s)
  case 0
  then have "\<not> i < 500" by simp
  with 0 show ?case
    by (simp add: loop_at_cap)
next
  case (Suc d)
  from Suc.hyps(2) have dist: "d = 500 - (i + 1)"
    by simp
  from Suc.prems(3)
  have entered: "scrollPulses (enterRound page i s) = map (\<lambda>j. roundPulses (page j)) [0 ..< i + 1]"
    by (simp add: autoScroll_roundPulses)
  from Suc.prems(1) show ?case
  proof (cases rule: loop_cases)
    case cap
    with Suc.prems show ?thesis by simp
  next
    case (thrown e)
    with entered show ?thesis by simp
  next
    case (stabilized f n)
    with entered show ?thesis by simp
  next
    case (stable f n)
    from entered show ?thesis
      by (intro Suc.hyps(1) [OF dist stable(5)]) simp_all
  next
    case (grown f n)
    from entered show ?thesis
      by (intro Suc.hyps(1) [OF dist grown(4)]) simp_all
  qed
qed

lemma saveOfRound_cases:
  assumes "saveOfRound page hasJsonPath srcUrl saveInterval i s = Inr (f, n)"
  shows "f = jsonFile s \<or> saveSequence [(extracted (page i), srcUrl, clock (page i))] (jsonFile s) = Inr f"
  using assms by (auto simp: saveOfRound_def split: if_splits)

lemma saveOfRound_Inl:
  assumes "saveOfRound page hasJsonPath srcUrl saveInterval i s = Inl e"
  shows "hasJsonPath \<and> \<not> productsReadable (jsonFile s)"
proof (cases "productsReadable (jsonFile s)")
  case False
  with assms show ?thesis
    by (auto simp: saveOfRound_def split: if_splits)
next
  case True
  then obtain f n where
    "saveProductsIncremental (extracted (page i)) srcUrl (clock (page i)) (jsonFile s) = Inr (f, n)"
    by (simp add: save_Inr_iff)
  then have "saveOfRound page hasJsonPath srcUrl saveInterval i s \<noteq> Inl e"
    by (simp add: saveOfRound_def)
  with assms show ?thesis
    by contradiction
qed

lemma mergeItems_no_null: "NullItem \<notin> set existing \<Longrightarrow> NullItem \<notin> set (mergeItems existing new)"
  by (auto simp: mergeItems_def)

lemma productsReadable_fileItems: "productsReadable f \<Longrightarrow> NullItem \<notin> set (fileItems f)"
  by (auto simp: productsReadable_def fileItems_def split: products_value.splits)

lemma saveOfRound_keeps_readable:
  assumes "saveOfRound page hasJsonPath srcUrl saveInterval i s = Inr (f, n)"
    and "productsReadable (jsonFile s)"
  shows "productsReadable f"
  using assms
  by (auto simp: saveOfRound_def save_Inr_iff mergeItems_no_null productsReadable_fileItems
      split: if_splits)

lemma loop_never_throws_on_readable:
  assumes "loadAllProductsLoop page hasJsonPath srcUrl saveInterval i s = (ex, r)"
    and "hasJsonPath \<longrightarrow> productsReadable (jsonFile s)"
  shows "ex \<noteq> Thrown e"
  using assms
proof (induction "500 - i" arbitrary: i s)
  case 0
  then have "\<not> i < 500" by simp
  with 0 show ?case
    by (simp add: loop_at_cap)
next
  case (Suc d)
  from Suc.hyps(2) have dist: "d = 500 - (i + 1)"
    by simp
  have kept: "hasJsonPath \<longrightarrow> productsReadable f"
    if "saveOfRound page hasJsonPath srcUrl saveInterval i s = Inr (f, n)" for f n
    using saveOfRound_keeps_readable [OF that] Suc.prems(2) by blast
  from Suc.prems(1) show ?case
  proof (cases rule: loop_cases)
    case cap
    then show ?thesis by simp
  next
    case (thrown e')
    with Suc.prems(2) saveOfRound_Inl [OF thrown(2)] show ?thesis by simp
  next
    case (stabilized f n)
    then show ?thesis by simp
  next
    case (stable f n)
    from kept [OF stable(2)] show ?thesis
      by (intro Suc.hyps(1) [OF dist stable(5)]) simp
  next
    case (grown f n)
    from kept [OF grown(2)] show ?thesis
      by (intro Suc.hyps(1) [OF dist grown(4)]) simp
  qed
qed

lemma saveSequence_append:
  "saveSequence xs f = Inr f1 \<Longrightarrow> saveSequence ys f1 = Inr f2 \<Longrightarrow> saveSequence (xs @ ys) f = Inr f2"
  by (induction xs arbitrary: f) (auto split: sum.splits)

text \<open>The file that the loop leaves is the result of a sequence of saves on the file it found.\<close>


lemma loop_file_is_save_sequence:
  assumes "loadAllProductsLoop page hasJsonPath srcUrl saveInterval i s = (ex, r)"
  shows "\<exists>calls. saveSequence calls (jsonFile s) = Inr (jsonFile r)"
  using assms
proof (induction "500 - i" arbitrary: i s)
  case 0
  then have "\<not> i < 500" by simp
  with 0 have "saveSequence [] (jsonFile s) = Inr (jsonFile r)"
    by (simp add: loop_at_cap)
  then show ?case ..
next
  case (Suc d)
  from Suc.hyps(2) have dist: "d = 500 - (i + 1)"
    by simp
  have one: "\<exists>calls. saveSequence calls (jsonFile s) = Inr f"
    if "saveOfRound page hasJsonPath srcUrl saveInterval i s = Inr (f, n)" for f n
  proof -
    from saveOfRound_cases [OF that] show ?thesis
    proof
      assume "f = jsonFile s"
      then have "saveSequence [] (jsonFile s) = Inr f" by simp
      then show ?thesis ..
    next
      assume "saveSequence [(extracted (page i), srcUrl, clock (page i))] (jsonFile s) = Inr f"
      then show ?thesis ..
    qed
  qed
  have more: "\<exists>calls. saveSequence calls (jsonFile s) = Inr (jsonFile r)"
    if "\<exists>calls. saveSequence calls (jsonFile s) = Inr f"
      and "\<exists>calls. saveSequence calls f = Inr (jsonFile r)" for f
    using that saveSequence_append by blast
  from Suc.prems(1) show ?case
  proof (cases rule: loop_cases)
    case cap
    then have "saveSequence [] (jsonFile s) = Inr (jsonFile r)" by simp
    then show ?thesis ..
  next
    case (thrown e)
    then have "saveSequence [] (jsonFile s) = Inr (jsonFile r)" by simp
    then show ?thesis ..
  next
    case (stabilized f n)
    with one [OF stabilized(2)] show ?thesis by simp
  next
    case (stable f n)
    from Suc.hyps(1) [OF dist stable(5)] have "\<exists>calls. saveSequence calls f = Inr (jsonFile r)"
      by simp
    with one [OF stable(2)] show ?thesis
      by (rule more)
  next
    case (grown f n)
    from Suc.hyps(1) [OF dist grown(4)] have "\<exists>calls. saveSequence calls f = Inr (jsonFile r)"
      by simp
    with one [OF grown(2)] show ?thesis
      by (rule more)
  qed
qed

text \<open>
  Claim C5, as amended. The loop of \<open>loadAllProducts\<close> always ends, after at most 500
  rounds. When it ends by \<open>break\<close>, its last round is the first measurement at which
  the count has not increased for 6 consecutive measurements; when it ends at the bound,
  it has run 500 rounds and there was no such measurement. A save can only throw on a
  file whose products cannot be read (no array, or an array holding \<open>null\<close>). Every round
  that is run calls \<open>autoScroll\<close> with \<open>maxScrolls = 5\<close>, and the call issues the
  pulses of \<open>roundPulses\<close>: exactly 5 when the scroll container is found, and otherwise
  one pulse after the other until the height of the body is unchanged by a pulse, 5 at
  most; so between 1 and 5 in each round.
\<close>

theorem scroll_loop_terminates:
  assumes "loadAllProducts page hasJsonPath srcUrl saveInterval f = (ex, r)"
  shows "iterationsRun r \<le> 500
    \<and> (ex = Stabilized \<longrightarrow>
         0 < iterationsRun r \<and> stableForSix (measuredCounts page) (iterationsRun r - 1)
         \<and> (\<forall>i<iterationsRun r - 1. \<not> stableForSix (measuredCounts page) i))
    \<and> (ex = CapReached \<longrightarrow>
         iterationsRun r = 500 \<and> (\<forall>i<500. \<not> stableForSix (measuredCounts page) i))
    \<and> (ex = Thrown e \<longrightarrow> hasJsonPath \<and> \<not> productsReadable f)
    \<and> scrollPulses r = map (\<lambda>j. roundPulses (page j)) [0 ..< iterationsRun r]
    \<and> autoScroll (hasContainer view) (bodyHeights view) 5 = roundPulses view
    \<and> 1 \<le> roundPulses view \<and> roundPulses view \<le> 5"
proof -
  let ?c = "measuredCounts page"
  let ?s = "\<lparr> previousCount = - 1, stableIterations = 0, jsonFile = f,
              iterationsRun = 0, scrollPulses = [] \<rparr>"
  from assms have run: "loadAllProductsLoop page hasJsonPath srcUrl saveInterval 0 ?s = (ex, r)"
    by (simp add: loadAllProducts_def)
  have stops: "iterationsRun r \<le> 500
    \<and> (ex = Stabilized \<longrightarrow>
         0 < iterationsRun r \<and> runLength ?c (iterationsRun r) = 6
         \<and> (\<forall>k<iterationsRun r. runLength ?c k < 6))
    \<and> (ex = CapReached \<longrightarrow> iterationsRun r = 500 \<and> (\<forall>k\<le>500. runLength ?c k < 6))"
    by (rule loop_stops [OF run]) simp_all
  have stabilized: "0 < iterationsRun r \<and> stableForSix ?c (iterationsRun r - 1)
         \<and> (\<forall>i<iterationsRun r - 1. \<not> stableForSix ?c i)" if "ex = Stabilized"
  proof -
    from that stops obtain m where m: "iterationsRun r = Suc m"
      and six: "runLength ?c (Suc m) = 6" and before: "\<forall>k<Suc m. runLength ?c k < 6"
      by (cases "iterationsRun r") auto
    from six have "stableForSix ?c m"
      by (simp only: stableForSix_runLength)
    moreover have "\<not> stableForSix ?c i" if "i < m" for i
    proof -
      from that have "Suc i < Suc m" by simp
      with before have "runLength ?c (Suc i) < 6" by blast
      then show ?thesis by (simp only: stableForSix_runLength not_le)
    qed
    ultimately show ?thesis
      using m by simp
  qed
  have capped: "iterationsRun r = 500 \<and> (\<forall>i<500. \<not> stableForSix ?c i)" if "ex = CapReached"
  proof -
    from that stops have all: "\<forall>k\<le>500. runLength ?c k < 6" and "iterationsRun r = 500"
      by simp_all
    moreover have "\<not> stableForSix ?c i" if "i < 500" for i
    proof -
      from that have "Suc i \<le> 500" by simp
      with all have "runLength ?c (Suc i) < 6" by blast
      then show ?thesis by (simp only: stableForSix_runLength not_le)
    qed
    ultimately show ?thesis by simp
  qed
  have thrown: "hasJsonPath \<and> \<not> productsReadable f" if "ex = Thrown e"
  proof (rule ccontr)
    assume "\<not> (hasJsonPath \<and> \<not> productsReadable f)"
    then have "hasJsonPath \<longrightarrow> productsReadable (jsonFile ?s)"
      by simp
    with run have "ex \<noteq> Thrown e"
      by (rule loop_never_throws_on_readable)
    with that show False by contradiction
  qed
  have pulses: "scrollPulses r = map (\<lambda>j. roundPulses (page j)) [0 ..< iterationsRun r]"
    by (rule loop_pulses_per_round [OF run]) simp_all
  from stops stabilized capped thrown pulses autoScroll_roundPulses [of view]
    roundPulses_bounds [of view]
  show ?thesis
    by blast
qed

lemma exampleRun_container:
  "fst (exampleRun True) = Stabilized"
  "iterationsRun (snd (exampleRun True)) = 10"
  "scrollPulses (snd (exampleRun True)) = [5, 5, 5, 5, 5, 5, 5, 5, 5, 5]"
  by code_simp+

theorem scroll_loop_terminates_witness:
  "loadAllProducts (examplePage True) True (ascii ''s'') 5 Absent = exampleRun True
   \<and> fst (exampleRun True) = Stabilized
   \<and> iterationsRun (snd (exampleRun True)) = 10
   \<and> stableForSix (measuredCounts (examplePage True)) 9
   \<and> \<not> stableForSix (measuredCounts (examplePage True)) 8
   \<and> scrollPulses (snd (exampleRun True)) = map (\<lambda>j. roundPulses (examplePage True j)) [0 ..< 10]
   \<and> scrollPulses (snd (exampleRun True)) = [5, 5, 5, 5, 5, 5, 5, 5, 5, 5]
   \<and> autoScroll (hasContainer (examplePage False 0)) (bodyHeights (examplePage False 0)) 5
       = roundPulses (examplePage False 0)
   \<and> roundPulses (examplePage False 0) = 2"
proof -
  have run: "loadAllProducts (examplePage True) True (ascii ''s'') 5 Absent
             = (fst (exampleRun True), snd (exampleRun True))"
    by (simp add: exampleRun_def)
  have two: "roundPulses (examplePage False 0) = 2"
    by code_simp
  show ?thesis
    using scroll_loop_terminates [OF run, of TypeError "examplePage False 0"] exampleRun_container two
    by (simp add: exampleRun_def)
qed

text \<open>
  The claim C5 as it is stated fails on the pulses: on a page without the scroll
  container whose body keeps its height, every round issues 2 scroll pulses, not 5.
\<close>

theorem rounds_without_container_issue_fewer_pulses:
  "autoScroll False (\<lambda>k. 1000) 5 = 2
   \<and> fst (exampleRun False) = Stabilized
   \<and> iterationsRun (snd (exampleRun False)) = 10
   \<and> scrollPulses (snd (exampleRun False)) = [2, 2, 2, 2, 2, 2, 2, 2, 2, 2]"
  by code_simp

text \<open>
  A run that is not ended by an exception leaves the final extraction in the file,
  whatever the saves of the loop had written, and marks the document as completed.
\<close>

lemma completed_run_leaves_final_extraction:
  assumes "fst (scrapeRun page srcUrl finalProducts finalClock f) = 0"
  shows "fileProducts (snd (scrapeRun page srcUrl finalProducts finalClock f))
           = normalizeAll finalProducts srcUrl finalClock
         \<and> map_option completed (fileMetadata (snd (scrapeRun page srcUrl finalProducts finalClock f)))
           = Some (Some True)"
proof -
  obtain ex s where loop: "loadAllProducts page True srcUrl 5 f = (ex, s)"
    by (cases "loadAllProducts page True srcUrl 5 f") auto
  with assms have "snd (scrapeRun page srcUrl finalProducts finalClock f)
                   = fst (writeFinalOutput finalProducts srcUrl finalClock (jsonFile s))"
    by (cases ex) (simp_all add: scrapeRun_def)
  then show ?thesis
    by (simp add: writeFinalOutput_products)
      (simp add: writeFinalOutput_def Let_def fileMetadata_def)
qed

text \<open>A run that starts on an absent file is never ended by an exception of a save.\<close>

lemma run_on_absent_file_completes:
  "fst (scrapeRun page srcUrl finalProducts finalClock Absent) = 0"
proof -
  obtain ex s where loop: "loadAllProducts page True srcUrl 5 Absent = (ex, s)"
    by (cases "loadAllProducts page True srcUrl 5 Absent") auto
  then have "ex \<noteq> Thrown e" for e
    unfolding loadAllProducts_def
    by (rule loop_never_throws_on_readable)
      (simp add: productsReadable_def loadExistingProducts_Absent)
  with loop show ?thesis
    by (cases ex) (auto simp: scrapeRun_def)
qed

section \<open>The conversion to CSV\<close>

lemma convert_status_and_file:
  "(fst (convertMain f) = 1) = (snd (convertMain f) = None)"
  by (simp add: convertMain_def split: sum.splits)

lemma convert_file_not_found: "(convertJsonToCsv f = Inl JsonFileNotFound) = (f = Absent)"
  by (simp add: convertJsonToCsv_def split: file_state.splits option.splits products_value.splits)

lemma convert_no_products: "(convertJsonToCsv f = Inl NoProductsFound) = productsListEmpty f"
  by (simp add: convertJsonToCsv_def productsListEmpty_def
      split: file_state.splits option.splits products_value.splits)

lemma convert_exits_at_checks:
  assumes "f = Absent \<or> productsListEmpty f"
  shows "convertMain f = (1, None)"
proof -
  from assms have "convertJsonToCsv f = Inl JsonFileNotFound \<or> convertJsonToCsv f = Inl NoProductsFound"
    by (simp only: convert_file_not_found convert_no_products)
  then show ?thesis
    by (auto simp: convertMain_def)
qed

lemma convert_exit_1:
  "(convertMain f = (1, None))
   = (f = Absent \<or> productsListEmpty f \<or> convertJsonToCsv f = Inl UncaughtError)"
proof -
  have "(convertMain f = (1, None)) = (\<exists>cause. convertJsonToCsv f = Inl cause)"
    by (cases "convertJsonToCsv f") (simp_all add: convertMain_def)
  also have "\<dots> = (convertJsonToCsv f = Inl JsonFileNotFound
                  \<or> convertJsonToCsv f = Inl NoProductsFound
                  \<or> convertJsonToCsv f = Inl UncaughtError)"
    by (metis exit_cause.exhaust)
  finally show ?thesis
    by (simp only: convert_file_not_found convert_no_products)
qed

text \<open>
  Claim C6. The two checks of \<open>convertJsonToCsv\<close> end the process exactly when the
  input JSON file is missing (the first) or its products list has zero entries (the
  second); when one of them does, the status is 1 and no CSV file is written. On every
  other input the process does not end at these checks: it ends with status 1 and
  without a CSV file in the handler of \<open>main\<close> when something is thrown, and with a
  CSV file otherwise.
\<close>

theorem convert_exit_status:
  "(convertJsonToCsv f = Inl JsonFileNotFound) = (f = Absent)
   \<and> (convertJsonToCsv f = Inl NoProductsFound) = productsListEmpty f
   \<and> (f = Absent \<or> productsListEmpty f \<longrightarrow> convertMain f = (1, None))
   \<and> (convertMain f = (1, None))
       = (f = Absent \<or> productsListEmpty f \<or> convertJsonToCsv f = Inl UncaughtError)
   \<and> (fst (convertMain f) = 1) = (snd (convertMain f) = None)"
  using convert_file_not_found [of f] convert_no_products [of f] convert_exits_at_checks [of f]
    convert_exit_1 [of f] convert_status_and_file [of f]
  by (intro conjI impI)

text \<open>The missing file, and the document that a save of no product leaves.\<close>

theorem convert_exit_status_witness:
  "convertJsonToCsv Absent = Inl JsonFileNotFound
   \<and> convertMain Absent = (1, None)
   \<and> productsListEmpty (savedDocument (ascii ''s'') (ascii ''t1'') [])
   \<and> convertJsonToCsv (savedDocument (ascii ''s'') (ascii ''t1'') []) = Inl NoProductsFound
   \<and> convertMain (savedDocument (ascii ''s'') (ascii ''t1'') []) = (1, None)"
proof -
  have empty: "productsListEmpty (savedDocument (ascii ''s'') (ascii ''t1'') [])"
    by (simp add: productsListEmpty_def savedDocument_def)
  show ?thesis
    using empty convert_exit_status [of Absent]
      convert_exit_status [of "savedDocument (ascii ''s'') (ascii ''t1'') []"]
    by simp
qed

text \<open>
  Inputs on which the process ends in the handler of \<open>main\<close>, with status 1 and without
  a CSV file, at neither check: a file that is no JSON text, an array that holds
  \<open>null\<close>, an array that holds an element on which the callback throws, and a products
  value that is not an array.
\<close>

lemma convert_ends_in_handler:
  "convertJsonToCsv (Unparseable t) = Inl UncaughtError"
  "convertJsonToCsv (Json \<lparr> metadata = md, products = Some (Array (items @ NullItem # others)) \<rparr>)
     = Inl UncaughtError"
  "convertJsonToCsv (Json \<lparr> metadata = md, products = Some (Array (items @ OtherItem u None # others)) \<rparr>)
     = Inl UncaughtError"
  "convertJsonToCsv (Json \<lparr> metadata = md, products = Some (NotAnArray False) \<rparr>) = Inl UncaughtError"
proof -
  have "those (xs @ None # ys) = None" for xs ys :: "cell list option list"
    by (induction xs) (simp_all split: option.splits)
  then show
    "convertJsonToCsv (Json \<lparr> metadata = md, products = Some (Array (items @ NullItem # others)) \<rparr>)
       = Inl UncaughtError"
    "convertJsonToCsv (Json \<lparr> metadata = md, products = Some (Array (items @ OtherItem u None # others)) \<rparr>)
       = Inl UncaughtError"
    by (simp_all add: convertJsonToCsv_def)
qed (simp_all add: convertJsonToCsv_def)

text \<open>A file that holds records only, and at least one, is converted record by record.\<close>

lemma those_map_Some: "those (map (\<lambda>x. Some (g x)) xs) = Some (map g xs)"
  by (induction xs) simp_all

lemma convert_records:
  "ps \<noteq> [] \<Longrightarrow>
   convertMain (Json \<lparr> metadata = md, products = Some (Array (map Record ps)) \<rparr>)
   = (0, Some \<lparr> header = csvHeader,
                records = map (csvRecord \<lparr> metadata = md, products = Some (Array (map Record ps)) \<rparr>) ps \<rparr>)"
  by (simp add: convertMain_def convertJsonToCsv_def comp_def those_map_Some)

text \<open>One product gives the header and one record, the cells in the order of the header.\<close>

lemma convert_one_product:
  "convertMain (savedDocument (ascii ''s'') (ascii ''t1'')
      (normalizeAll [exampleProduct ''A  b'' ''/a''] (ascii ''s'') (ascii ''t1'')))
   = (0, Some \<lparr> header = [''name'', ''url'', ''uom'', ''price'', ''priceText'', ''weightedPriceText'',
                            ''image'', ''scrapedAt'', ''sourceUrl''],
                records = [[Text (ascii ''A b''), Text (ascii ''/a''), Text (ascii ''1kg''), Number 125,
                            Text (0x20B1 # ascii ''125''), Text [], Text (ascii ''/i.png''),
                            Text (ascii ''t1''), Text (ascii ''s'')]] \<rparr>)"
  by code_simp

end
